theory Spec2Isabelle
  imports Main
begin

section \<open>Values, errors and user code\<close>

text \<open>
  JavaScript values as far as the store and the reducer composer look at them.
  An object carries its identity (the number it was allocated under) and its own
  enumerable string-keyed properties in insertion order; \<open>VObj\<close> is an object
  literal (a plain object), \<open>VInst\<close> any other object (array, class instance).
  A function value is a reference into the function table of the world.
  Neither the store nor the composer mutates an object after it has built it, so
  the properties travel with the reference.  The properties are listed in the order
  in which \<open>Object.keys\<close> enumerates them.  Property lookup ignores inherited
  properties (keys such as \<open>toString\<close> are outside the model), and numbers are
  integers (there is no \<open>NaN\<close>).
\<close>

datatype val =
    VUndefined
  | VNull
  | VBool bool
  | VNum int
  | VStr string
  | VObj nat "(string \<times> val) list"
  | VInst nat "(string \<times> val) list"
  | VFun nat

text \<open>
  Every \<open>throw new Error(msg)\<close> of the source is \<open>Error msg\<close>; \<open>TypeError\<close> is what
  the language itself raises (property access on \<open>null\<close>, calling a non-function);
  \<open>Thrown\<close> is any value thrown by user code.
\<close>

datatype error = Error string | TypeError string | Thrown val

text \<open>
  User code (reducers, listeners) is a tree of interactions: it returns, throws, or
  performs a call or an allocation and continues with the outcome, which lets it
  catch an exception of the call.
\<close>

datatype cmd = CCall val "val list" | CAlloc "(string \<times> val) list"

datatype prog = Ret val | Throw error | Do cmd "error + val \<Rightarrow> prog"

text \<open>
  The functions that exist at run time.  \<open>Combination\<close> is the closure returned by
  \<open>combineReducers\<close> (its \<open>finalReducers\<close> in key order and its
  \<open>shapeAssertionError\<close>); \<open>Unsubscribe\<close> is the closure returned by
  \<open>subscribe\<close> (its \<open>listener\<close> and its \<open>isSubscribed\<close> flag); the
  remaining four are the methods of the store.  The observable adapter of the store
  is left out.
\<close>

datatype func =
    UserFn "val list \<Rightarrow> prog"
  | Combination "(string \<times> val) list" "error option"
  | Unsubscribe val bool
  | StoreDispatch
  | StoreSubscribe
  | StoreGetState
  | StoreReplaceReducer

text \<open>
  The world: the function table, the listener arrays (shared, mutable, addressed by
  reference), the allocation counter, and the variables closed over by the store
  of \<open>createStore\<close>.  \<open>currentListeners\<close> is \<open>None\<close> when the source holds
  \<open>null\<close>.  \<open>log\<close> is an observer's record of the listener invocations made by
  \<open>dispatch\<close>, in order; the code never reads it.
\<close>

record world =
  funs :: "nat \<Rightarrow> func option"
  arrays :: "nat \<Rightarrow> val list option"
  fresh :: nat
  currentReducer :: val
  currentState :: val
  currentListeners :: "nat option"
  nextListeners :: nat
  isDispatching :: bool
  store :: val
  log :: "val list"

type_synonym outcome = "((error + val) \<times> world) option"
type_synonym caller = "world \<Rightarrow> val \<Rightarrow> val list \<Rightarrow> outcome"

definition is_function :: "val \<Rightarrow> bool" where
  "is_function v = (case v of VFun _ \<Rightarrow> True | _ \<Rightarrow> False)"

definition is_undefined :: "val \<Rightarrow> bool" where
  "is_undefined v = (case v of VUndefined \<Rightarrow> True | _ \<Rightarrow> False)"

text \<open>Strict equality \<open>===\<close>: objects and functions by reference, the rest by value.\<close>

fun strict_eq :: "val \<Rightarrow> val \<Rightarrow> bool" where
  "strict_eq (VObj a _) (VObj b _) = (a = b)"
| "strict_eq (VInst a _) (VInst b _) = (a = b)"
| "strict_eq (VObj a _) (VInst b _) = (a = b)"
| "strict_eq (VInst a _) (VObj b _) = (a = b)"
| "strict_eq v w = (v = w)"

text \<open>The \<open>i\<close>-th argument of a call; a missing argument is \<open>undefined\<close>.\<close>

definition arg :: "val list \<Rightarrow> nat \<Rightarrow> val" where
  "arg args i = (if i < length args then args ! i else VUndefined)"

text \<open>\<open>o[key]\<close>: fails on \<open>null\<close> and \<open>undefined\<close>, \<open>undefined\<close> for a missing key.\<close>

definition lookup_prop :: "(string \<times> val) list \<Rightarrow> string \<Rightarrow> val" where
  "lookup_prop fs key = (case map_of fs key of None \<Rightarrow> VUndefined | Some v \<Rightarrow> v)"

definition get_prop :: "val \<Rightarrow> string \<Rightarrow> error + val" where
  "get_prop v key =
     (case v of
        VObj _ fs \<Rightarrow> Inr (lookup_prop fs key)
      | VInst _ fs \<Rightarrow> Inr (lookup_prop fs key)
      | VNull \<Rightarrow> Inl (TypeError ''Cannot read properties of null'')
      | VUndefined \<Rightarrow> Inl (TypeError ''Cannot read properties of undefined'')
      | _ \<Rightarrow> Inr VUndefined)"

text \<open>
  \<open>Object.keys(o)\<close>; a primitive or a function has no own enumerable key here (the
  index keys of a string are not modelled).
\<close>

definition object_keys :: "val \<Rightarrow> error + string list" where
  "object_keys v =
     (case v of
        VObj _ fs \<Rightarrow> Inr (map fst fs)
      | VInst _ fs \<Rightarrow> Inr (map fst fs)
      | VNull \<Rightarrow> Inl (TypeError ''Cannot convert undefined or null to object'')
      | VUndefined \<Rightarrow> Inl (TypeError ''Cannot convert undefined or null to object'')
      | _ \<Rightarrow> Inr [])"

text \<open>\<open>o[key] = v\<close> on an object under construction.\<close>

fun set_prop :: "(string \<times> val) list \<Rightarrow> string \<Rightarrow> val \<Rightarrow> (string \<times> val) list" where
  "set_prop [] key v = [(key, v)]"
| "set_prop ((k, u) # fs) key v =
     (if k = key then (k, v) # fs else (k, u) # set_prop fs key v)"

text \<open>An object literal: a new identity from the allocation counter.\<close>

definition alloc :: "world \<Rightarrow> (string \<times> val) list \<Rightarrow> val \<times> world" where
  "alloc w fs = (VObj (fresh w) fs, w\<lparr>fresh := Suc (fresh w)\<rparr>)"

definition new_fun :: "world \<Rightarrow> func \<Rightarrow> val \<times> world" where
  "new_fun w f =
     (VFun (fresh w), w\<lparr>funs := (funs w)(fresh w \<mapsto> f), fresh := Suc (fresh w)\<rparr>)"

text \<open>
  Modelled from the spec: \<open>utils/isPlainObject\<close> is not among the sources; an
  action must be a plain structural mapping, and arrays, class instances and
  primitives are rejected.
\<close>

definition isPlainObject :: "val \<Rightarrow> bool" where
  "isPlainObject v = (case v of VObj _ _ \<Rightarrow> True | _ \<Rightarrow> False)"

text \<open>
  Modelled from the spec: \<open>utils/actionTypes\<close> is not among the sources; the reserved
  types are process-private strings with a random suffix, fixed here.
\<close>

definition ActionTypes_INIT :: string where
  "ActionTypes_INIT = ''@@redux/INITa.b.c''"

definition ActionTypes_REPLACE :: string where
  "ActionTypes_REPLACE = ''@@redux/REPLACEa.b.c''"

definition ActionTypes_PROBE_UNKNOWN_ACTION :: string where
  "ActionTypes_PROBE_UNKNOWN_ACTION = ''@@redux/PROBE_UNKNOWN_ACTIONd.e.f''"

text \<open>Running user code against a way \<open>cl\<close> of calling functions.\<close>

definition exec :: "caller \<Rightarrow> world \<Rightarrow> cmd \<Rightarrow> outcome" where
  "exec cl w c =
     (case c of
        CCall f args \<Rightarrow> cl w f args
      | CAlloc fs \<Rightarrow> (case alloc w fs of (v, w') \<Rightarrow> Some (Inr v, w')))"

primrec run :: "caller \<Rightarrow> world \<Rightarrow> prog \<Rightarrow> outcome" where
  "run cl w (Ret v) = Some (Inr v, w)"
| "run cl w (Throw e) = Some (Inl e, w)"
| "run cl w (Do c k) =
     (case exec cl w c of None \<Rightarrow> None | Some (r, w') \<Rightarrow> run cl w' (k r))"


section \<open>The store (\<open>createStore.ts\<close>)\<close>

definition ensureCanMutateNextListeners :: "world \<Rightarrow> world" where
  "ensureCanMutateNextListeners w =
     (if Some (nextListeners w) = currentListeners w
      then w\<lparr>arrays := (arrays w)(fresh w := arrays w (nextListeners w)),
             nextListeners := fresh w,
             fresh := Suc (fresh w)\<rparr>
      else w)"

definition getState_reentrancy_message :: string where
  "getState_reentrancy_message =
     ''You may not call store.getState() while the reducer is executing. '' @
     ''The reducer has already received the state as an argument. '' @
     ''Pass it down from the top reducer instead of reading it from the store.''"

definition getState :: "world \<Rightarrow> (error + val) \<times> world" where
  "getState w =
     (if isDispatching w
      then (Inl (Error getState_reentrancy_message), w)
      else (Inr (currentState w), w))"

definition subscribe_reentrancy_message :: string where
  "subscribe_reentrancy_message =
     ''You may not call store.subscribe() while the reducer is executing. '' @
     ''If you would like to be notified after the store has been updated, subscribe from a '' @
     ''component and invoke store.getState() in the callback to access the latest state. '' @
     ''See https://redux.js.org/api-reference/store#subscribelistener for more details.''"

text \<open>\<open>xs.push(v)\<close> on the array behind a reference.\<close>

definition array_push :: "world \<Rightarrow> nat \<Rightarrow> val \<Rightarrow> world" where
  "array_push w r v =
     w\<lparr>arrays := (arrays w)(r := map_option (\<lambda>xs. xs @ [v]) (arrays w r))\<rparr>"

definition subscribe :: "world \<Rightarrow> val \<Rightarrow> (error + val) \<times> world" where
  "subscribe w listener =
     (if \<not> is_function listener
      then (Inl (Error ''Expected the listener to be a function.''), w)
      else if isDispatching w
      then (Inl (Error subscribe_reentrancy_message), w)
      else
        let w1 = ensureCanMutateNextListeners w;
            w2 = array_push w1 (nextListeners w1) listener;
            (u, w3) = new_fun w2 (Unsubscribe listener True)
        in (Inr u, w3))"

text \<open>\<open>xs.indexOf(v)\<close>, with \<open>None\<close> for \<open>-1\<close>.\<close>

fun index_of :: "val list \<Rightarrow> val \<Rightarrow> nat option" where
  "index_of [] v = None"
| "index_of (x # xs) v =
     (if strict_eq x v then Some 0 else map_option Suc (index_of xs v))"

text \<open>\<open>xs.splice(index, 1)\<close>: index \<open>-1\<close> counts from the end.\<close>

definition splice1 :: "val list \<Rightarrow> nat option \<Rightarrow> val list" where
  "splice1 xs index =
     (case index of None \<Rightarrow> butlast xs | Some i \<Rightarrow> take i xs @ drop (Suc i) xs)"

definition unsubscribe_reentrancy_message :: string where
  "unsubscribe_reentrancy_message =
     ''You may not unsubscribe from a store listener while the reducer is executing. '' @
     ''See https://redux.js.org/api-reference/store#subscribelistener for more details.''"

text \<open>The closure \<open>unsubscribe\<close> stored under \<open>self\<close> in the function table.\<close>

definition unsubscribe :: "nat \<Rightarrow> val \<Rightarrow> bool \<Rightarrow> world \<Rightarrow> (error + val) \<times> world" where
  "unsubscribe self listener isSubscribed w =
     (if \<not> isSubscribed then (Inr VUndefined, w)
      else if isDispatching w
      then (Inl (Error unsubscribe_reentrancy_message), w)
      else
        let w1 = w\<lparr>funs := (funs w)(self \<mapsto> Unsubscribe listener False)\<rparr>;
            w2 = ensureCanMutateNextListeners w1;
            r = nextListeners w2;
            w3 = w2\<lparr>arrays := (arrays w2)(r := map_option
                       (\<lambda>xs. splice1 xs (index_of xs listener)) (arrays w2 r))\<rparr>
        in (Inr VUndefined, w3\<lparr>currentListeners := None\<rparr>))"

text \<open>
  The listener loop of \<open>dispatch\<close> over the array behind \<open>listeners\<close>: length and
  element are read from the array at every round.  The first argument bounds the
  number of rounds.
\<close>

primrec notify :: "caller \<Rightarrow> nat \<Rightarrow> world \<Rightarrow> nat \<Rightarrow> nat \<Rightarrow> outcome" where
  "notify cl 0 w listeners i = None"
| "notify cl (Suc m) w listeners i =
     (case arrays w listeners of
        None \<Rightarrow> Some (Inl (TypeError ''Cannot read properties of undefined''), w)
      | Some xs \<Rightarrow>
          if i < length xs
          then (case cl (w\<lparr>log := log w @ [xs ! i]\<rparr>) (xs ! i) [] of
                  None \<Rightarrow> None
                | Some (Inl e, w') \<Rightarrow> Some (Inl e, w')
                | Some (Inr _, w') \<Rightarrow> notify cl m w' listeners (Suc i))
          else Some (Inr VUndefined, w))"

definition not_plain_object_message :: string where
  "not_plain_object_message =
     ''Actions must be plain objects. '' @ ''Use custom middleware for async actions.''"

definition undefined_type_message :: string where
  "undefined_type_message =
     ''Actions may not have an undefined \"type\" property. '' @
     ''Have you misspelled a constant?''"

definition dispatch_reentrancy_message :: string where
  "dispatch_reentrancy_message = ''Reducers may not dispatch actions.''"

definition dispatch :: "caller \<Rightarrow> nat \<Rightarrow> world \<Rightarrow> val \<Rightarrow> outcome" where
  "dispatch cl m w action =
     (if \<not> isPlainObject action
      then Some (Inl (Error not_plain_object_message), w)
      else if (case get_prop action ''type'' of Inr t \<Rightarrow> is_undefined t | Inl _ \<Rightarrow> False)
      then Some (Inl (Error undefined_type_message), w)
      else if isDispatching w
      then Some (Inl (Error dispatch_reentrancy_message), w)
      else
        (case cl (w\<lparr>isDispatching := True\<rparr>) (currentReducer w) [currentState w, action] of
           None \<Rightarrow> None
         | Some (Inl e, w1) \<Rightarrow> Some (Inl e, w1\<lparr>isDispatching := False\<rparr>)
         | Some (Inr s, w1) \<Rightarrow>
             let w2 = w1\<lparr>currentState := s, isDispatching := False\<rparr>;
                 listeners = nextListeners w2;
                 w3 = w2\<lparr>currentListeners := Some listeners\<rparr>
             in (case notify cl m w3 listeners 0 of
                   None \<Rightarrow> None
                 | Some (Inl e, w4) \<Rightarrow> Some (Inl e, w4)
                 | Some (Inr _, w4) \<Rightarrow> Some (Inr action, w4))))"

definition replaceReducer :: "caller \<Rightarrow> nat \<Rightarrow> world \<Rightarrow> val \<Rightarrow> outcome" where
  "replaceReducer cl m w nextReducer =
     (if \<not> is_function nextReducer
      then Some (Inl (Error ''Expected the nextReducer to be a function.''), w)
      else
        let w1 = w\<lparr>currentReducer := nextReducer\<rparr>;
            (action, w2) = alloc w1 [(''type'', VStr ActionTypes_REPLACE)]
        in (case dispatch cl m w2 action of
              None \<Rightarrow> None
            | Some (Inl e, w3) \<Rightarrow> Some (Inl e, w3)
            | Some (Inr _, w3) \<Rightarrow> Some (Inr (store w3), w3)))"


section \<open>The reducer composer (\<open>combineReducers\<close>)\<close>

text \<open>Truthiness and \<open>String(v)\<close>; the text of a function is not modelled.\<close>

definition truthy :: "val \<Rightarrow> bool" where
  "truthy v =
     (case v of
        VUndefined \<Rightarrow> False
      | VNull \<Rightarrow> False
      | VBool b \<Rightarrow> b
      | VNum n \<Rightarrow> n \<noteq> 0
      | VStr s \<Rightarrow> s \<noteq> []
      | _ \<Rightarrow> True)"

fun dec_nat :: "nat \<Rightarrow> string" where
  "dec_nat n =
     (if n < 10 then [''0123456789'' ! n]
      else dec_nat (n div 10) @ [''0123456789'' ! (n mod 10)])"

definition String :: "val \<Rightarrow> string" where
  "String v =
     (case v of
        VUndefined \<Rightarrow> ''undefined''
      | VNull \<Rightarrow> ''null''
      | VBool b \<Rightarrow> (if b then ''true'' else ''false'')
      | VNum n \<Rightarrow> (if n < 0 then ''-'' @ dec_nat (nat (- n)) else dec_nat (nat n))
      | VStr s \<Rightarrow> s
      | VObj _ _ \<Rightarrow> ''[object Object]''
      | VInst _ _ \<Rightarrow> ''[object Object]''
      | VFun _ \<Rightarrow> ''function'')"

definition getUndefinedStateErrorMessage :: "string \<Rightarrow> val \<Rightarrow> error + string" where
  "getUndefinedStateErrorMessage key action =
     (case (if truthy action then get_prop action ''type'' else Inr action) of
        Inl e \<Rightarrow> Inl e
      | Inr actionType \<Rightarrow>
          let actionDescription =
                (if truthy actionType then ''action \"'' @ String actionType @ ''\"''
                 else ''an action'')
          in Inr (''Given '' @ actionDescription @ '', reducer \"'' @ key @
                  ''\" returned undefined. '' @
                  ''To ignore an action, you must explicitly return the previous state. '' @
                  ''If you want this reducer to hold no value, you can return null instead of undefined.''))"

definition init_undefined_message :: "string \<Rightarrow> string" where
  "init_undefined_message key =
     ''Reducer \"'' @ key @ ''\" returned undefined during initialization. '' @
     ''If the state passed to the reducer is undefined, you must '' @
     ''explicitly return the initial state. The initial state may '' @
     ''not be undefined. If you don't want to set a value for this reducer, '' @
     ''you can use null instead of undefined.''"

definition probe_undefined_message :: "string \<Rightarrow> string" where
  "probe_undefined_message key =
     ''Reducer \"'' @ key @ ''\" returned undefined when probed with a random type. '' @
     ''Don't try to handle '' @ ActionTypes_INIT @ '' or other actions in \"redux/*\" '' @
     ''namespace. They are considered private. Instead, you must return the '' @
     ''current state for any unknown actions, unless it is undefined, '' @
     ''in which case you must return the initial state, regardless of the '' @
     ''action type. The initial state may not be undefined, but can be null.''"

text \<open>
  \<open>assertReducerShape\<close>: the \<open>forEach\<close> over the keys of \<open>finalReducers\<close>; an
  exception of a reducer leaves the loop as the exceptions of the checks do.
\<close>

primrec assertReducerShape :: "caller \<Rightarrow> world \<Rightarrow> (string \<times> val) list \<Rightarrow> outcome" where
  "assertReducerShape cl w [] = Some (Inr VUndefined, w)"
| "assertReducerShape cl w (kr # rest) =
     (let (a1, w1) = alloc w [(''type'', VStr ActionTypes_INIT)]
      in (case cl w1 (snd kr) [VUndefined, a1] of
            None \<Rightarrow> None
          | Some (Inl e, w2) \<Rightarrow> Some (Inl e, w2)
          | Some (Inr initialState, w2) \<Rightarrow>
              if is_undefined initialState
              then Some (Inl (Error (init_undefined_message (fst kr))), w2)
              else
                (let (a2, w3) = alloc w2 [(''type'', VStr ActionTypes_PROBE_UNKNOWN_ACTION)]
                 in (case cl w3 (snd kr) [VUndefined, a2] of
                       None \<Rightarrow> None
                     | Some (Inl e, w4) \<Rightarrow> Some (Inl e, w4)
                     | Some (Inr probed, w4) \<Rightarrow>
                         if is_undefined probed
                         then Some (Inl (Error (probe_undefined_message (fst kr))), w4)
                         else assertReducerShape cl w4 rest))))"

text \<open>
  The entries of \<open>reducers\<close> whose value is a function, in key order.  The
  warnings of the development build only print, and are left out.
\<close>

definition finalReducers_of :: "(string \<times> val) list \<Rightarrow> (string \<times> val) list" where
  "finalReducers_of fs = filter (\<lambda>kr. is_function (snd kr)) fs"

definition props_of :: "val \<Rightarrow> (string \<times> val) list" where
  "props_of v = (case v of VObj _ fs \<Rightarrow> fs | VInst _ fs \<Rightarrow> fs | _ \<Rightarrow> [])"

definition combineReducers :: "caller \<Rightarrow> world \<Rightarrow> val \<Rightarrow> outcome" where
  "combineReducers cl w reducers =
     (case object_keys reducers of
        Inl e \<Rightarrow> Some (Inl e, w)
      | Inr _ \<Rightarrow>
          (let finalReducers = finalReducers_of (props_of reducers)
           in (case assertReducerShape cl w finalReducers of
                 None \<Rightarrow> None
               | Some (r, w1) \<Rightarrow>
                   (let shapeAssertionError = (case r of Inl e \<Rightarrow> Some e | Inr _ \<Rightarrow> None);
                        (f, w2) = new_fun w1 (Combination finalReducers shapeAssertionError)
                    in Some (Inr f, w2)))))"

text \<open>
  The key loop of \<open>combination\<close>, with \<open>hasChanged\<close> and the properties set on
  \<open>nextState\<close> so far; it yields both at the end of the loop.
\<close>

primrec combination_loop ::
  "caller \<Rightarrow> world \<Rightarrow> val \<Rightarrow> val \<Rightarrow> bool \<Rightarrow> (string \<times> val) list \<Rightarrow> (string \<times> val) list
   \<Rightarrow> ((error + bool \<times> (string \<times> val) list) \<times> world) option" where
  "combination_loop cl w state action hasChanged nextState [] =
     Some (Inr (hasChanged, nextState), w)"
| "combination_loop cl w state action hasChanged nextState (kr # rest) =
     (case get_prop state (fst kr) of
        Inl e \<Rightarrow> Some (Inl e, w)
      | Inr previousStateForKey \<Rightarrow>
          (case cl w (snd kr) [previousStateForKey, action] of
             None \<Rightarrow> None
           | Some (Inl e, w1) \<Rightarrow> Some (Inl e, w1)
           | Some (Inr nextStateForKey, w1) \<Rightarrow>
               if is_undefined nextStateForKey
               then (case getUndefinedStateErrorMessage (fst kr) action of
                       Inl e \<Rightarrow> Some (Inl e, w1)
                     | Inr errorMessage \<Rightarrow> Some (Inl (Error errorMessage), w1))
               else combination_loop cl w1 state action
                      (hasChanged \<or> \<not> strict_eq nextStateForKey previousStateForKey)
                      (set_prop nextState (fst kr) nextStateForKey) rest))"

text \<open>What \<open>if (shapeAssertionError)\<close> tests: a captured exception that is truthy.\<close>

definition error_truthy :: "error \<Rightarrow> bool" where
  "error_truthy e = (case e of Thrown v \<Rightarrow> truthy v | _ \<Rightarrow> True)"

definition raised :: "error option \<Rightarrow> error option" where
  "raised shapeAssertionError =
     (case shapeAssertionError of
        None \<Rightarrow> None
      | Some e \<Rightarrow> if error_truthy e then Some e else None)"

definition combination ::
  "caller \<Rightarrow> (string \<times> val) list \<Rightarrow> error option \<Rightarrow> world \<Rightarrow> val \<Rightarrow> val \<Rightarrow> outcome" where
  "combination cl finalReducers shapeAssertionError w state0 action =
     (let (state, w0) = (if is_undefined state0 then alloc w [] else (state0, w))
      in (case raised shapeAssertionError of
            Some e \<Rightarrow> Some (Inl e, w0)
          | None \<Rightarrow>
              (let (fresh_obj, w1) = alloc w0 []
               in (case combination_loop cl w1 state action False [] finalReducers of
                     None \<Rightarrow> None
                   | Some (Inl e, w2) \<Rightarrow> Some (Inl e, w2)
                   | Some (Inr (hasChanged, nextState), w2) \<Rightarrow>
                       (case object_keys state of
                          Inl e \<Rightarrow> Some (Inl e, w2)
                        | Inr keys \<Rightarrow>
                            if hasChanged \<or> length finalReducers \<noteq> length keys
                            then Some (Inr (VObj (fresh w0) nextState), w2)
                            else Some (Inr state, w2))))))"

section \<open>Calling a function\<close>

text \<open>
  A call of a function value: user code is run, and the closures of the store and of
  the composer do what their source does.  \<open>cl\<close> performs the calls made inside.
\<close>

definition call_fn :: "caller \<Rightarrow> nat \<Rightarrow> world \<Rightarrow> val \<Rightarrow> val list \<Rightarrow> outcome" where
  "call_fn cl m w f args =
     (case f of
        VFun i \<Rightarrow>
          (case funs w i of
             None \<Rightarrow> Some (Inl (TypeError ''not a function''), w)
           | Some (UserFn body) \<Rightarrow> run cl w (body args)
           | Some (Combination finalReducers shapeAssertionError) \<Rightarrow>
               combination cl finalReducers shapeAssertionError w (arg args 0) (arg args 1)
           | Some (Unsubscribe listener isSubscribed) \<Rightarrow>
               Some (unsubscribe i listener isSubscribed w)
           | Some StoreDispatch \<Rightarrow> dispatch cl m w (arg args 0)
           | Some StoreSubscribe \<Rightarrow> Some (subscribe w (arg args 0))
           | Some StoreGetState \<Rightarrow> Some (getState w)
           | Some StoreReplaceReducer \<Rightarrow> replaceReducer cl m w (arg args 0))
      | _ \<Rightarrow> Some (Inl (TypeError ''not a function''), w))"

text \<open>
  Calls nest to any depth and a listener may dispatch for ever: \<open>call n\<close> gives up
  (\<open>None\<close>) beyond nesting depth \<open>n\<close> or \<open>n\<close> rounds of a listener loop.
\<close>

primrec call :: "nat \<Rightarrow> caller" where
  "call 0 = (\<lambda>w f args. None)"
| "call (Suc n) = call_fn (call n) n"

section \<open>Construction (\<open>createStore\<close>)\<close>

text \<open>
  The result of \<open>createStore\<close>: the store, or the call
  \<open>enhancer(createStore)(reducer, preloadedState)\<close> that it hands control to and
  whose result it returns; what the enhancer does is not part of the code.
\<close>

datatype construction = Created val | HandedOver val val val

definition several_enhancers_message :: string where
  "several_enhancers_message =
     ''It looks like you are passing several store enhancers to '' @
     ''createStore(). This is not supported. Instead, compose them '' @
     ''together to a single function.''"

definition createStore ::
  "caller \<Rightarrow> nat \<Rightarrow> world \<Rightarrow> val list \<Rightarrow> ((error + construction) \<times> world) option" where
  "createStore cl m w args =
     (let reducer = arg args 0; preloadedState0 = arg args 1; enhancer0 = arg args 2
      in if (is_function preloadedState0 \<and> is_function enhancer0) \<or>
            (is_function enhancer0 \<and> is_function (arg args 3))
         then Some (Inl (Error several_enhancers_message), w)
         else
           let (preloadedState, enhancer) =
                 (if is_function preloadedState0 \<and> is_undefined enhancer0
                  then (VUndefined, preloadedState0)
                  else (preloadedState0, enhancer0))
           in if \<not> is_undefined enhancer
              then (if \<not> is_function enhancer
                    then Some (Inl (Error ''Expected the enhancer to be a function.''), w)
                    else Some (Inr (HandedOver enhancer reducer preloadedState), w))
              else if \<not> is_function reducer
              then Some (Inl (Error ''Expected the reducer to be a function.''), w)
              else
                let w1 = w\<lparr>arrays := (arrays w)(fresh w \<mapsto> []),
                           fresh := Suc (fresh w),
                           currentReducer := reducer,
                           currentState := preloadedState,
                           currentListeners := Some (fresh w),
                           nextListeners := fresh w,
                           isDispatching := False\<rparr>;
                    (f_dispatch, w2) = new_fun w1 StoreDispatch;
                    (f_subscribe, w3) = new_fun w2 StoreSubscribe;
                    (f_getState, w4) = new_fun w3 StoreGetState;
                    (f_replaceReducer, w5) = new_fun w4 StoreReplaceReducer;
                    (action, w6) = alloc w5 [(''type'', VStr ActionTypes_INIT)]
                in case dispatch cl m w6 action of
                     None \<Rightarrow> None
                   | Some (Inl e, w7) \<Rightarrow> Some (Inl e, w7)
                   | Some (Inr _, w7) \<Rightarrow>
                       let (s, w8) = alloc w7 [(''dispatch'', f_dispatch),
                                               (''subscribe'', f_subscribe),
                                               (''getState'', f_getState),
                                               (''replaceReducer'', f_replaceReducer)]
                       in Some (Inr (Created s), w8\<lparr>store := s\<rparr>))"


section \<open>Notions used by the properties\<close>

text \<open>An action that \<open>dispatch\<close> accepts: a plain object whose \<open>type\<close> is defined.\<close>

definition valid_action :: "val \<Rightarrow> bool" where
  "valid_action a =
     (isPlainObject a \<and> (\<exists>t. get_prop a ''type'' = Inr t \<and> \<not> is_undefined t))"

text \<open>
  The array \<open>ls\<close> is a frozen snapshot in \<open>w\<close>: it has been allocated, and it is
  \<open>nextListeners\<close> only while it is \<open>currentListeners\<close> too, so that
  \<open>ensureCanMutateNextListeners\<close> copies before any write.
\<close>

definition snapshot_inv :: "nat \<Rightarrow> world \<Rightarrow> bool" where
  "snapshot_inv ls w =
     (ls < fresh w \<and> (nextListeners w = ls \<longrightarrow> currentListeners w = Some ls))"

text \<open>
  What any call may do to the world: the store object and the in-progress flag are
  as before on return, the allocation counter only grows, nothing of the store but
  the reducer changes while the flag is set, and a frozen snapshot stays as it is.
\<close>

definition evolves :: "world \<Rightarrow> world \<Rightarrow> bool" where
  "evolves w w' =
     (store w' = store w \<and> isDispatching w' = isDispatching w \<and> fresh w \<le> fresh w' \<and>
      (isDispatching w \<longrightarrow>
         currentState w' = currentState w \<and> log w' = log w \<and> arrays w' = arrays w \<and>
         nextListeners w' = nextListeners w \<and> currentListeners w' = currentListeners w) \<and>
      (\<forall>ls. snapshot_inv ls w \<longrightarrow> snapshot_inv ls w' \<and> arrays w' ls = arrays w ls))"

definition well_behaved :: "caller \<Rightarrow> bool" where
  "well_behaved cl = (\<forall>w f args r w'. cl w f args = Some (r, w') \<longrightarrow> evolves w w')"

text \<open>
  What \<open>dispatch\<close> returns once the listener loop has ended with outcome \<open>r\<close>.
\<close>

definition after_listeners :: "val \<Rightarrow> outcome \<Rightarrow> outcome" where
  "after_listeners action r =
     (case r of
        None \<Rightarrow> None
      | Some (Inl e, w) \<Rightarrow> Some (Inl e, w)
      | Some (Inr _, w) \<Rightarrow> Some (Inr action, w))"

text \<open>
  The per-key calls of a composite reducer on a state with properties \<open>fs\<close>: each
  retained reducer is called in key order on the value \<open>fs\<close> holds under its key, in the
  world the call before left.  The outcome is the list of results and the last world
  when every call returns a defined value, and \<open>None\<close> otherwise.
\<close>

primrec slice_calls ::
  "caller \<Rightarrow> world \<Rightarrow> (string \<times> val) list \<Rightarrow> val \<Rightarrow> (string \<times> val) list
   \<Rightarrow> (val list \<times> world) option" where
  "slice_calls cl w fs a [] = Some ([], w)"
| "slice_calls cl w fs a (kr # rest) =
     (case cl w (snd kr) [lookup_prop fs (fst kr), a] of
        None \<Rightarrow> None
      | Some (Inl e, w1) \<Rightarrow> None
      | Some (Inr v, w1) \<Rightarrow>
          if is_undefined v then None
          else (case slice_calls cl w1 fs a rest of
                  None \<Rightarrow> None
                | Some (vs, w2) \<Rightarrow> Some (v # vs, w2)))"

text \<open>
  For per-key results \<open>vs\<close>: no result differs by reference from its slice, and the
  mapping of every retained key to its result.
\<close>

definition slices_unchanged :: "(string \<times> val) list \<Rightarrow> (string \<times> val) list \<Rightarrow> val list \<Rightarrow> bool" where
  "slices_unchanged fs frs vs =
     list_all2 (\<lambda>kr v. strict_eq v (lookup_prop fs (fst kr))) frs vs"

definition slice_results :: "(string \<times> val) list \<Rightarrow> val list \<Rightarrow> (string \<times> val) list" where
  "slice_results frs vs = zip (map fst frs) vs"



definition allocated :: "world \<Rightarrow> world" where
  "allocated w = w\<lparr>fresh := Suc (fresh w)\<rparr>"

definition replace_action :: "world \<Rightarrow> val" where
  "replace_action w = VObj (fresh w) [(''type'', VStr ActionTypes_REPLACE)]"


text \<open>
  The listener pass as the spec words it: every listener of the list frozen when the
  pass began is invoked once, in order.
\<close>

primrec notify_frozen :: "caller \<Rightarrow> world \<Rightarrow> val list \<Rightarrow> outcome" where
  "notify_frozen cl w [] = Some (Inr VUndefined, w)"
| "notify_frozen cl w (x # xs) =
     (case cl (w\<lparr>log := log w @ [x]\<rparr>) x [] of
        None \<Rightarrow> None
      | Some (Inl e, w') \<Rightarrow> Some (Inl e, w')
      | Some (Inr _, w') \<Rightarrow> notify_frozen cl w' xs)"

text \<open>
  A dispatch in \<open>w\<close> whose transition function returns invokes exactly the listeners
  \<open>zs\<close>, in order, whatever the listeners do meanwhile.
\<close>

definition dispatch_notifies :: "nat \<Rightarrow> nat \<Rightarrow> world \<Rightarrow> val list \<Rightarrow> bool" where
  "dispatch_notifies n m w zs =
     (\<forall>a s w1.
        valid_action a \<and> length zs < m \<and>
        call n (w\<lparr>isDispatching := True\<rparr>) (currentReducer w) [currentState w, a] = Some (Inr s, w1)
        \<longrightarrow> dispatch (call n) m w a =
              after_listeners a
                (notify_frozen (call n)
                   (w1\<lparr>currentState := s, isDispatching := False,
                        currentListeners := Some (nextListeners w)\<rparr>) zs))"

section \<open>Example programs\<close>

text \<open>A world before any store exists: a function table and an allocation counter.\<close>

definition empty_world :: "(nat \<Rightarrow> func option) \<Rightarrow> nat \<Rightarrow> world" where
  "empty_world fs n =
     \<lparr>funs = fs, arrays = (\<lambda>_. None), fresh = n, currentReducer = VUndefined,
      currentState = VUndefined, currentListeners = None, nextListeners = 0,
      isDispatching = False, store = VUndefined, log = []\<rparr>"

definition action_of :: "nat \<Rightarrow> string \<Rightarrow> val" where
  "action_of i t = VObj i [(''type'', VStr t)]"

definition type_of :: "val \<Rightarrow> val" where
  "type_of a = (case get_prop a ''type'' of Inr t \<Rightarrow> t | Inl _ \<Rightarrow> VUndefined)"

text \<open>The reducer \<open>(state = 0, action) => action.type === 'INC' ? state + 1 : state\<close>.\<close>

definition counter :: "val list \<Rightarrow> prog" where
  "counter args =
     (let state = (if is_undefined (arg args 0) then VNum 0 else arg args 0)
      in if type_of (arg args 1) = VStr ''INC''
         then (case state of VNum n \<Rightarrow> Ret (VNum (n + 1)) | _ \<Rightarrow> Ret state)
         else Ret state)"

text \<open>A reducer that throws on \<open>BAD\<close>.\<close>

definition fragile :: "val list \<Rightarrow> prog" where
  "fragile args =
     (if type_of (arg args 1) = VStr ''BAD'' then Throw (Thrown (VStr ''boom''))
      else counter args)"

definition rethrow :: "error + val \<Rightarrow> prog" where
  "rethrow r = (case r of Inl e \<Rightarrow> Throw e | Inr _ \<Rightarrow> Ret VUndefined)"

text \<open>The listener \<open>if (store.getState() === 0) store.dispatch({type: 'INC'})\<close>.\<close>

definition inc_once :: "val list \<Rightarrow> prog" where
  "inc_once args =
     Do (CCall (VFun 13) []) (\<lambda>r. case r of
        Inl e \<Rightarrow> Throw e
      | Inr s \<Rightarrow>
          if s = VNum 0
          then Do (CAlloc [(''type'', VStr ''INC'')]) (\<lambda>a. case a of
                 Inl e \<Rightarrow> Throw e
               | Inr a \<Rightarrow> Do (CCall (VFun 11) [a]) rethrow)
          else Ret VUndefined)"

text \<open>A reducer that dispatches from inside and lets the exception escape.\<close>

definition nesting :: "val list \<Rightarrow> prog" where
  "nesting args =
     (if type_of (arg args 1) = VStr ''NEST''
      then Do (CCall (VFun 11) [arg args 1]) (\<lambda>r. case r of
             Inl e \<Rightarrow> Throw e
           | Inr _ \<Rightarrow> counter args)
      else counter args)"

text \<open>
  A reducer that, on \<open>SWAP\<close>, calls \<open>store.replaceReducer(plus_ten)\<close> and
  swallows the exception.
\<close>

definition swapper :: "val list \<Rightarrow> prog" where
  "swapper args =
     (if type_of (arg args 1) = VStr ''SWAP''
      then Do (CCall (VFun 14) [VFun 5]) (\<lambda>r. counter args)
      else counter args)"

definition plus_ten :: "val list \<Rightarrow> prog" where
  "plus_ten args =
     (case arg args 0 of VNum n \<Rightarrow> Ret (VNum (n + 10)) | _ \<Rightarrow> Ret (VNum 0))"

definition example_funs :: "nat \<Rightarrow> func option" where
  "example_funs = [0 \<mapsto> UserFn counter, 1 \<mapsto> UserFn inc_once, 2 \<mapsto> UserFn fragile,
                   3 \<mapsto> UserFn nesting, 4 \<mapsto> UserFn swapper, 5 \<mapsto> UserFn plus_ten]"

text \<open>
  The world that \<open>createStore\<close> leaves when it starts at allocation counter 10:
  the listener array at 10, the methods at 11 to 14, the store object at 16.
\<close>

definition store_object :: val where
  "store_object = VObj 16 [(''dispatch'', VFun 11), (''subscribe'', VFun 12),
                           (''getState'', VFun 13), (''replaceReducer'', VFun 14)]"

definition store_world :: "(nat \<Rightarrow> func option) \<Rightarrow> val \<Rightarrow> val \<Rightarrow> val list \<Rightarrow> world" where
  "store_world fs reducer state listeners =
     \<lparr>funs = fs(11 \<mapsto> StoreDispatch, 12 \<mapsto> StoreSubscribe, 13 \<mapsto> StoreGetState,
                 14 \<mapsto> StoreReplaceReducer),
      arrays = [10 \<mapsto> listeners], fresh = 17, currentReducer = reducer,
      currentState = state, currentListeners = Some 10, nextListeners = 10,
      isDispatching = False, store = store_object, log = []\<rparr>"

text \<open>What an observer sees of an outcome: the result, the state and the log.\<close>

definition observe :: "outcome \<Rightarrow> ((error + val) \<times> val \<times> val list) option" where
  "observe r = map_option (\<lambda>(x, w). (x, currentState w, log w)) r"

definition then_dispatch :: "nat \<Rightarrow> outcome \<Rightarrow> val \<Rightarrow> outcome" where
  "then_dispatch n r a =
     (case r of None \<Rightarrow> None | Some (_, w) \<Rightarrow> dispatch (call n) n w a)"

text \<open>The reducer \<open>(state, action) => state\<close>, which has no initial state.\<close>

definition no_default :: "val list \<Rightarrow> prog" where
  "no_default args = Ret (arg args 0)"

text \<open>
  The example table with two composite reducers as \<open>combineReducers\<close> builds them,
  \<open>{count: counter}\<close> at 6 and \<open>{count: plus_ten, extra: counter}\<close> at 7.
\<close>

definition composer_funs :: "nat \<Rightarrow> func option" where
  "composer_funs = example_funs(6 \<mapsto> Combination [(''count'', VFun 0)] None,
                                7 \<mapsto> Combination [(''count'', VFun 5), (''extra'', VFun 0)] None,
                                8 \<mapsto> UserFn no_default)"



text \<open>A listener that subscribes the listener at 7, and a listener that does nothing.\<close>

definition subscribing :: "val list \<Rightarrow> prog" where
  "subscribing args = Do (CCall (VFun 12) [VFun 7]) rethrow"

definition quiet :: "val list \<Rightarrow> prog" where
  "quiet args = Ret VUndefined"

definition listener_funs :: "nat \<Rightarrow> func option" where
  "listener_funs = example_funs(6 \<mapsto> UserFn subscribing, 7 \<mapsto> UserFn quiet)"

text \<open>
  A reducer that returns a newly allocated object around its state, a reducer that
  always throws, and the composites \<open>{count: counter, box: boxing}\<close> at 20 and
  \<open>{count: plus_ten, box: boxing}\<close> at 21.
\<close>

definition boxing :: "val list \<Rightarrow> prog" where
  "boxing args =
     Do (CAlloc [(''value'', arg args 0)]) (\<lambda>r. case r of Inl e \<Rightarrow> Throw e | Inr v \<Rightarrow> Ret v)"

definition throwing :: "val list \<Rightarrow> prog" where
  "throwing args = Throw (Thrown (VStr ''boom''))"

definition boxing_funs :: "nat \<Rightarrow> func option" where
  "boxing_funs = composer_funs(9 \<mapsto> UserFn boxing, 10 \<mapsto> UserFn throwing,
                               20 \<mapsto> Combination [(''count'', VFun 0), (''box'', VFun 9)] None,
                               21 \<mapsto> Combination [(''count'', VFun 5), (''box'', VFun 9)] None)"

text \<open>
  A reducer that, on \<open>SWAP\<close>, calls \<open>store.replaceReducer(plus_ten)\<close> and lets the
  exception escape.
\<close>

definition swap_escaping :: "val list \<Rightarrow> prog" where
  "swap_escaping args =
     (if type_of (arg args 1) = VStr ''SWAP''
      then Do (CCall (VFun 14) [VFun 5]) (\<lambda>r. case r of Inl e \<Rightarrow> Throw e | Inr _ \<Rightarrow> counter args)
      else counter args)"

definition swapping_funs :: "nat \<Rightarrow> func option" where
  "swapping_funs = example_funs(6 \<mapsto> UserFn swap_escaping)"

section \<open>How calls change the world\<close>

lemma evolves_refl: "evolves w w"
  by (simp add: evolves_def)

lemma evolves_trans: "evolves w1 w2 \<Longrightarrow> evolves w2 w3 \<Longrightarrow> evolves w1 w3"
  unfolding evolves_def by (intro conjI allI impI; (elim conjE)?; simp?) 

lemma evolves_alloc: "alloc w fs = (v, w') \<Longrightarrow> evolves w w'"
  by (auto simp: alloc_def evolves_def snapshot_inv_def)

lemma evolves_new_fun: "new_fun w f = (v, w') \<Longrightarrow> evolves w w'"
  by (auto simp: new_fun_def evolves_def snapshot_inv_def)

lemma well_behavedD: "well_behaved cl \<Longrightarrow> cl w f args = Some (r, w') \<Longrightarrow> evolves w w'"
  by (auto simp: well_behaved_def)

lemma run_evolves: "well_behaved cl \<Longrightarrow> run cl w p = Some (r, w') \<Longrightarrow> evolves w w'"
proof (induction p arbitrary: w)
  case (Ret v) then show ?case by (simp add: evolves_refl)
next
  case (Throw e) then show ?case by (simp add: evolves_refl)
next
  case (Do c k)
  from Do.prems(2) obtain r1 w1 where e: "exec cl w c = Some (r1, w1)" and rest: "run cl w1 (k r1) = Some (r, w')"
    by (auto split: option.splits)
  have "evolves w w1"
  proof (cases c)
    case (CCall f args)
    with e Do.prems(1) show ?thesis by (auto simp: exec_def dest: well_behavedD)
  next
    case (CAlloc fs)
    with e show ?thesis by (auto simp: exec_def split: prod.splits dest: evolves_alloc)
  qed
  moreover have "evolves w1 w'" using Do.IH[OF _ Do.prems(1) rest] by blast
  ultimately show ?case by (rule evolves_trans)
qed

lemma combination_loop_evolves:
  "well_behaved cl \<Longrightarrow> combination_loop cl w s a hc ns frs = Some (r, w') \<Longrightarrow> evolves w w'"
proof (induction frs arbitrary: w hc ns)
  case Nil then show ?case by (simp add: evolves_refl)
next
  case (Cons kr rest)
  show ?case
  proof (cases "get_prop s (fst kr)")
    case (Inl e)
    with Cons.prems show ?thesis by (simp add: evolves_refl)
  next
    case (Inr p)
    show ?thesis
    proof (cases "cl w (snd kr) [p, a]")
      case None
      with Cons.prems Inr show ?thesis by simp
    next
      case (Some x)
      obtain r1 w1 where x: "x = (r1, w1)" by (cases x)
      have e1: "evolves w w1" using Some x Cons.prems(1) by (auto dest: well_behavedD)
      show ?thesis
      proof (cases r1)
        case (Inl e)
        with Cons.prems Inr Some x e1 show ?thesis by simp
      next
        case v: (Inr v)
        show ?thesis
        proof (cases "is_undefined v")
          case True
          with Cons.prems Inr Some x v e1 show ?thesis
            by (auto split: sum.splits)
        next
          case False
          with Cons.prems Inr Some x v
          have "combination_loop cl w1 s a (hc \<or> \<not> strict_eq v p) (set_prop ns (fst kr) v) rest = Some (r, w')"
            by simp
          from Cons.IH[OF Cons.prems(1) this] e1 show ?thesis by (blast intro: evolves_trans)
        qed
      qed
    qed
  qed
qed

lemma combination_evolves:
  assumes "well_behaved cl" and "combination cl frs err w s a = Some (r, w')"
  shows "evolves w w'"
proof -
  obtain st w0 where st: "(if is_undefined s then alloc w [] else (s, w)) = (st, w0)"
    by (cases "if is_undefined s then alloc w [] else (s, w)")
  have e0: "evolves w w0" using st by (auto split: if_splits intro: evolves_refl evolves_alloc)
  show ?thesis
  proof (cases "raised err")
    case (Some e)
    with assms st e0 show ?thesis by (simp add: combination_def)
  next
    case None
    obtain o1 w1 where a1: "alloc w0 [] = (o1, w1)" by (cases "alloc w0 []")
    have e1: "evolves w0 w1" using a1 by (rule evolves_alloc)
    from assms(2) st None a1
    obtain r2 w2 where l: "combination_loop cl w1 st a False [] frs = Some (r2, w2)" and w': "w' = w2"
      by (auto simp: combination_def split: option.splits sum.splits prod.splits if_splits)
    from combination_loop_evolves[OF assms(1) l] e0 e1 w' show ?thesis
      by (blast intro: evolves_trans)
  qed
qed

lemma evolves_ensure: "\<not> isDispatching w \<Longrightarrow> evolves w (ensureCanMutateNextListeners w)"
  by (auto simp: ensureCanMutateNextListeners_def evolves_def snapshot_inv_def)

lemma ensure_next_not_current:
  "snapshot_inv ls w \<Longrightarrow> nextListeners (ensureCanMutateNextListeners w) \<noteq> ls"
  by (auto simp: ensureCanMutateNextListeners_def snapshot_inv_def)

lemma subscribe_evolves: "subscribe w l = (r, w') \<Longrightarrow> evolves w w'"
proof (cases "\<not> is_function l \<or> isDispatching w")
  case True
  assume "subscribe w l = (r, w')"
  with True show ?thesis by (auto simp: subscribe_def evolves_refl split: if_splits)
next
  case False
  assume a: "subscribe w l = (r, w')"
  let ?w1 = "ensureCanMutateNextListeners w"
  have w': "w' = snd (new_fun (array_push ?w1 (nextListeners ?w1) l) (Unsubscribe l True))"
    using a False by (simp add: subscribe_def Let_def split: prod.splits)
  show "evolves w w'"
    unfolding w' using False
    apply (simp only: evolves_def new_fun_def array_push_def snd_conv)
    apply (auto simp: snapshot_inv_def ensureCanMutateNextListeners_def)
    done
qed

lemma unsubscribe_evolves: "unsubscribe self l b w = (r, w') \<Longrightarrow> evolves w w'"
proof (cases "\<not> b \<or> isDispatching w")
  case True
  assume "unsubscribe self l b w = (r, w')"
  with True show ?thesis by (auto simp: unsubscribe_def evolves_refl split: if_splits)
next
  case False
  assume a: "unsubscribe self l b w = (r, w')"
  let ?w1 = "w\<lparr>funs := (funs w)(self \<mapsto> Unsubscribe l False)\<rparr>"
  let ?w2 = "ensureCanMutateNextListeners ?w1"
  have w': "w' = ?w2\<lparr>arrays := (arrays ?w2)(nextListeners ?w2 := map_option
                       (\<lambda>xs. splice1 xs (index_of xs l)) (arrays ?w2 (nextListeners ?w2))),
                     currentListeners := None\<rparr>"
    using a False by (simp add: unsubscribe_def Let_def)
  show "evolves w w'"
    unfolding w' using False
    apply (simp only: evolves_def)
    apply (auto simp: snapshot_inv_def ensureCanMutateNextListeners_def)
    done
qed

lemma getState_evolves: "getState w = (r, w') \<Longrightarrow> evolves w w'"
  by (auto simp: getState_def evolves_refl split: if_splits)

lemma notify_evolves:
  "well_behaved cl \<Longrightarrow> \<not> isDispatching w \<Longrightarrow> notify cl m w ls i = Some (r, w') \<Longrightarrow> evolves w w'"
proof (induction m arbitrary: w i)
  case 0 then show ?case by simp
next
  case (Suc m)
  show ?case
  proof (cases "arrays w ls")
    case None
    with Suc.prems show ?thesis by (simp add: evolves_refl)
  next
    case (Some xs)
    show ?thesis
    proof (cases "i < length xs")
      case False
      with Suc.prems Some show ?thesis by (simp add: evolves_refl)
    next
      case True
      let ?w0 = "w\<lparr>log := log w @ [xs ! i]\<rparr>"
      have e0: "evolves w ?w0" using Suc.prems(2) by (auto simp: evolves_def snapshot_inv_def)
      from Suc.prems(3) Some True obtain r1 w1 where c: "cl ?w0 (xs ! i) [] = Some (r1, w1)"
        by (auto split: option.splits)
      have e1: "evolves ?w0 w1" using c Suc.prems(1) by (auto dest: well_behavedD)
      then have nd: "\<not> isDispatching w1" using Suc.prems(2) by (simp add: evolves_def)
      show ?thesis
      proof (cases r1)
        case (Inl e)
        with Suc.prems(3) Some True c have "w' = w1" by simp
        with e0 e1 show ?thesis by (blast intro: evolves_trans)
      next
        case (Inr v)
        with Suc.prems(3) Some True c have "notify cl m w1 ls (Suc i) = Some (r, w')" by simp
        from Suc.IH[OF Suc.prems(1) nd this] e0 e1 show ?thesis by (blast intro: evolves_trans)
      qed
    qed
  qed
qed

lemma dispatch_evolves:
  assumes wb: "well_behaved cl" and d: "dispatch cl m w a = Some (r, w')"
  shows "evolves w w'"
proof (cases "\<not> isPlainObject a \<or> (case get_prop a ''type'' of Inr t \<Rightarrow> is_undefined t | Inl _ \<Rightarrow> False) \<or> isDispatching w")
  case True
  with d have "w' = w" by (auto simp: dispatch_def split: if_splits)
  then show ?thesis by (simp add: evolves_refl)
next
  case False
  let ?w0 = "w\<lparr>isDispatching := True\<rparr>"
  from d False obtain r1 w1 where c: "cl ?w0 (currentReducer w) [currentState w, a] = Some (r1, w1)"
    by (auto simp: dispatch_def split: option.splits)
  have e1: "evolves ?w0 w1" using c wb by (auto dest: well_behavedD)
  show ?thesis
  proof (cases r1)
    case (Inl e)
    with d False c have w': "w' = w1\<lparr>isDispatching := False\<rparr>" by (simp add: dispatch_def)
    show ?thesis using e1 False unfolding w'
      by (simp add: evolves_def snapshot_inv_def)
  next
    case (Inr s)
    let ?w3 = "w1\<lparr>currentState := s, isDispatching := False, currentListeners := Some (nextListeners w1)\<rparr>"
    from d False c Inr obtain r4 w4 where n: "notify cl m ?w3 (nextListeners w1) 0 = Some (r4, w4)" and w': "w' = w4"
      by (auto simp: dispatch_def Let_def split: option.splits sum.splits)
    have e3: "evolves w ?w3" using e1 False
      by (simp add: evolves_def snapshot_inv_def)
    have "evolves ?w3 w4" using notify_evolves[OF wb _ n] by simp
    with e3 w' show ?thesis by (blast intro: evolves_trans)
  qed
qed

lemma replaceReducer_evolves:
  assumes wb: "well_behaved cl" and d: "replaceReducer cl m w f = Some (r, w')"
  shows "evolves w w'"
proof (cases "is_function f")
  case False
  with d show ?thesis by (simp add: replaceReducer_def evolves_refl)
next
  case True
  let ?w2 = "w\<lparr>currentReducer := f, fresh := Suc (fresh w)\<rparr>"
  from d True obtain r3 where "dispatch cl m ?w2 (VObj (fresh w) [(''type'', VStr ActionTypes_REPLACE)]) = Some (r3, w')"
    by (auto simp: replaceReducer_def alloc_def split: option.splits sum.splits)
  from dispatch_evolves[OF wb this] have "evolves ?w2 w'" .
  moreover have "evolves w ?w2" by (auto simp: evolves_def snapshot_inv_def)
  ultimately show ?thesis by (blast intro: evolves_trans)
qed

lemma call_fn_evolves:
  assumes wb: "well_behaved cl" and c: "call_fn cl m w f args = Some (r, w')"
  shows "evolves w w'"
proof (cases f)
  case (VFun i)
  show ?thesis
  proof (cases "funs w i")
    case None
    with c VFun show ?thesis by (simp add: call_fn_def evolves_refl)
  next
    case (Some fn)
    with c VFun show ?thesis
      by (cases fn)
         (auto simp: call_fn_def
               intro: run_evolves[OF wb] combination_evolves[OF wb] unsubscribe_evolves
                      dispatch_evolves[OF wb] subscribe_evolves getState_evolves
                      replaceReducer_evolves[OF wb])
  qed
qed (use c in \<open>auto simp: call_fn_def evolves_refl\<close>)

lemma call_well_behaved: "well_behaved (call n)"
proof (induction n)
  case 0 show ?case by (simp add: well_behaved_def)
next
  case (Suc n)
  then show ?case unfolding well_behaved_def
    by (auto dest: call_fn_evolves[OF Suc])
qed

lemma call_evolves: "call n w f args = Some (r, w') \<Longrightarrow> evolves w w'"
  using call_well_behaved by (rule well_behavedD)

section \<open>Construction\<close>

text \<open>
  Claim C6.  At construction, a callable second argument with an absent third one is
  taken as the enhancer: control is handed to it with no preloaded state.  Callables
  in the second and third positions, or in the third and fourth, make construction
  fail with the error about several enhancers.
\<close>

theorem createStore_overload_resolution:
  "(is_function (arg args 1) \<and> is_undefined (arg args 2) \<longrightarrow>
      createStore cl m w args =
        Some (Inr (HandedOver (arg args 1) (arg args 0) VUndefined), w)) \<and>
   ((is_function (arg args 1) \<and> is_function (arg args 2)) \<or>
    (is_function (arg args 2) \<and> is_function (arg args 3)) \<longrightarrow>
      createStore cl m w args = Some (Inl (Error several_enhancers_message), w))"
  by (auto simp: createStore_def Let_def is_function_def is_undefined_def split: val.splits)

theorem createStore_overload_resolution_witness:
  "createStore (call 0) 0 (empty_world Map.empty 0) [VFun 0, VFun 1] =
     Some (Inr (HandedOver (VFun 1) (VFun 0) VUndefined), empty_world Map.empty 0) \<and>
   createStore (call 0) 0 (empty_world Map.empty 0) [VFun 0, VFun 1, VFun 2] =
     Some (Inl (Error several_enhancers_message), empty_world Map.empty 0) \<and>
   createStore (call 0) 0 (empty_world Map.empty 0) [VFun 0, VNum 7, VFun 1, VFun 2] =
     Some (Inl (Error several_enhancers_message), empty_world Map.empty 0)"
  using createStore_overload_resolution
          [of "[VFun 0, VFun 1]" "call 0" 0 "empty_world Map.empty 0"]
        createStore_overload_resolution
          [of "[VFun 0, VFun 1, VFun 2]" "call 0" 0 "empty_world Map.empty 0"]
        createStore_overload_resolution
          [of "[VFun 0, VNum 7, VFun 1, VFun 2]" "call 0" 0 "empty_world Map.empty 0"]
  by (simp add: arg_def is_function_def is_undefined_def)

section \<open>Dispatch\<close>

lemma valid_actionD:
  "valid_action a \<Longrightarrow> isPlainObject a \<and> \<not> (case get_prop a ''type'' of Inr t \<Rightarrow> is_undefined t | Inl _ \<Rightarrow> False)"
  by (auto simp: valid_action_def)

lemma dispatch_rejected:
  "valid_action a \<Longrightarrow> isDispatching w \<Longrightarrow>
   dispatch cl m w a = Some (Inl (Error dispatch_reentrancy_message), w)"
  by (simp add: dispatch_def valid_actionD)

lemma dispatch_reducer_raises:
  "valid_action a \<Longrightarrow> \<not> isDispatching w \<Longrightarrow>
   cl (w\<lparr>isDispatching := True\<rparr>) (currentReducer w) [currentState w, a] = Some (Inl e, w1) \<Longrightarrow>
   dispatch cl m w a = Some (Inl e, w1\<lparr>isDispatching := False\<rparr>)"
  by (simp add: dispatch_def valid_actionD)

lemma dispatch_reducer_returns:
  "valid_action a \<Longrightarrow> \<not> isDispatching w \<Longrightarrow>
   cl (w\<lparr>isDispatching := True\<rparr>) (currentReducer w) [currentState w, a] = Some (Inr s, w1) \<Longrightarrow>
   dispatch cl m w a =
     after_listeners a
       (notify cl m (w1\<lparr>currentState := s, isDispatching := False,
                        currentListeners := Some (nextListeners w1)\<rparr>) (nextListeners w1) 0)"
  by (simp add: dispatch_def valid_actionD after_listeners_def Let_def)

section \<open>Evaluating the examples\<close>

lemma call_numeral: "call (numeral k) = call_fn (call (pred_numeral k)) (pred_numeral k)"
  by (simp add: numeral_eq_Suc)

lemma notify_numeral:
  "notify cl (numeral k) w listeners i =
     (case arrays w listeners of
        None \<Rightarrow> Some (Inl (TypeError ''Cannot read properties of undefined''), w)
      | Some xs \<Rightarrow>
          if i < length xs
          then (case cl (w\<lparr>log := log w @ [xs ! i]\<rparr>) (xs ! i) [] of
                  None \<Rightarrow> None
                | Some (Inl e, w') \<Rightarrow> Some (Inl e, w')
                | Some (Inr _, w') \<Rightarrow> notify cl (pred_numeral k) w' listeners (Suc i))
          else Some (Inr VUndefined, w))"
  by (simp add: numeral_eq_Suc)

lemmas ev = call_numeral notify_numeral call_fn_def dispatch_def isPlainObject_def get_prop_def lookup_prop_def
  is_undefined_def is_function_def arg_def exec_def alloc_def new_fun_def type_of_def
  action_of_def Let_def getState_def

lemma createStore_example:
  "createStore (call 2) 2 (empty_world example_funs 10) [VFun 0] =
     Some (Inr (Created store_object), store_world example_funs (VFun 0) (VNum 0) [])"
  by (simp add: createStore_def empty_world_def store_world_def store_object_def example_funs_def
       counter_def ActionTypes_INIT_def ev)

lemmas ex = observe_def store_world_def example_funs_def counter_def inc_once_def rethrow_def
  fragile_def nesting_def swapper_def plus_ten_def

lemma valid_action_of [simp]: "valid_action (action_of i t)"
  by (simp add: valid_action_def action_of_def isPlainObject_def get_prop_def lookup_prop_def is_undefined_def)

text \<open>
  Claim C8.  For every store in which no dispatch is in progress and every valid
  action \<open>a\<close>: whatever \<open>dispatch a\<close> returns is \<open>a\<close> itself, and it does return
  \<open>a\<close> when the transition function and the listener loop return normally.
\<close>

theorem dispatch_returns_action:
  assumes "valid_action a" and "\<not> isDispatching w"
  shows "(\<forall>v w'. dispatch cl m w a = Some (Inr v, w') \<longrightarrow> v = a) \<and>
         (\<forall>s w1 u w2.
            cl (w\<lparr>isDispatching := True\<rparr>) (currentReducer w) [currentState w, a] = Some (Inr s, w1) \<and>
            notify cl m (w1\<lparr>currentState := s, isDispatching := False,
                            currentListeners := Some (nextListeners w1)\<rparr>) (nextListeners w1) 0
              = Some (Inr u, w2)
            \<longrightarrow> dispatch cl m w a = Some (Inr a, w2))"
proof (intro conjI allI impI)
  fix v w'
  assume d: "dispatch cl m w a = Some (Inr v, w')"
  show "v = a"
  proof (cases "cl (w\<lparr>isDispatching := True\<rparr>) (currentReducer w) [currentState w, a]")
    case None
    with d assms show ?thesis by (simp add: dispatch_def valid_actionD)
  next
    case (Some x)
    obtain r1 w1 where x: "x = (r1, w1)" by (cases x)
    show ?thesis
    proof (cases r1)
      case (Inl e)
      with d Some x dispatch_reducer_raises[OF assms, of cl e w1 m] show ?thesis by simp
    next
      case (Inr s)
      with d Some x dispatch_reducer_returns[OF assms, of cl s w1 m] show ?thesis
        by (auto simp: after_listeners_def split: option.splits sum.splits)
    qed
  qed
next
  fix s w1 u w2
  assume "cl (w\<lparr>isDispatching := True\<rparr>) (currentReducer w) [currentState w, a] = Some (Inr s, w1) \<and>
            notify cl m (w1\<lparr>currentState := s, isDispatching := False,
                            currentListeners := Some (nextListeners w1)\<rparr>) (nextListeners w1) 0
              = Some (Inr u, w2)"
  then show "dispatch cl m w a = Some (Inr a, w2)"
    using dispatch_reducer_returns[OF assms, of cl s w1 m] by (simp add: after_listeners_def)
qed

theorem dispatch_returns_action_witness:
  "map_option fst (dispatch (call 5) 5 (store_world example_funs (VFun 0) (VNum 0) [VFun 1])
                     (action_of 100 ''NOOP'')) = Some (Inr (action_of 100 ''NOOP''))"
proof -
  let ?w = "store_world example_funs (VFun 0) (VNum 0) [VFun 1]"
  let ?a = "action_of 100 ''NOOP''"
  have h1: "valid_action ?a" by simp
  have h2: "\<not> isDispatching ?w" by (simp add: store_world_def)
  have r: "call 5 (?w\<lparr>isDispatching := True\<rparr>) (currentReducer ?w) [currentState ?w, ?a] =
           Some (Inr (VNum 0), ?w\<lparr>isDispatching := True\<rparr>)"
    by (simp add: ex ev)
  have "\<exists>u w2. notify (call 5) 5
          (?w\<lparr>isDispatching := True, currentState := VNum 0, isDispatching := False,
               currentListeners := Some (nextListeners (?w\<lparr>isDispatching := True\<rparr>))\<rparr>)
          (nextListeners (?w\<lparr>isDispatching := True\<rparr>)) 0 = Some (Inr u, w2)"
    by (simp add: ex ev)
  then obtain u w2 where l: "notify (call 5) 5
          (?w\<lparr>isDispatching := True, currentState := VNum 0, isDispatching := False,
               currentListeners := Some (nextListeners (?w\<lparr>isDispatching := True\<rparr>))\<rparr>)
          (nextListeners (?w\<lparr>isDispatching := True\<rparr>)) 0 = Some (Inr u, w2)"
    by blast
  from dispatch_returns_action [OF h1 h2, of "call 5" 5] r l
  have "dispatch (call 5) 5 ?w ?a = Some (Inr ?a, w2)" by blast
  then show ?thesis by simp
qed

text \<open>
  Claim C2.  For every store in which no dispatch is in progress and every valid
  action: if the current transition function raises \<open>e\<close> when \<open>dispatch\<close> invokes
  it, then \<open>dispatch\<close> raises \<open>e\<close>, the state is the one before the dispatch, no
  listener has been invoked, and the in-progress flag is cleared, so that
  \<open>getState\<close> succeeds afterwards.
\<close>

theorem reducer_error_aborts_dispatch:
  assumes "valid_action a" and "\<not> isDispatching w"
    and "call n (w\<lparr>isDispatching := True\<rparr>) (currentReducer w) [currentState w, a] = Some (Inl e, w1)"
  shows "dispatch (call n) m w a = Some (Inl e, w1\<lparr>isDispatching := False\<rparr>) \<and>
         currentState (w1\<lparr>isDispatching := False\<rparr>) = currentState w \<and>
         log (w1\<lparr>isDispatching := False\<rparr>) = log w \<and>
         \<not> isDispatching (w1\<lparr>isDispatching := False\<rparr>) \<and>
         getState (w1\<lparr>isDispatching := False\<rparr>) =
           (Inr (currentState w), w1\<lparr>isDispatching := False\<rparr>)"
proof -
  from call_evolves[OF assms(3)] have "currentState w1 = currentState w" "log w1 = log w"
    by (simp_all add: evolves_def)
  with dispatch_reducer_raises[of a w "call n" e w1 m] assms show ?thesis
    by (simp add: getState_def)
qed

theorem reducer_error_aborts_dispatch_witness:
  "dispatch (call 1) 1 (store_world example_funs (VFun 2) (VNum 0) [VFun 1]) (action_of 100 ''BAD'') =
     Some (Inl (Thrown (VStr ''boom'')), store_world example_funs (VFun 2) (VNum 0) [VFun 1]) \<and>
   getState (store_world example_funs (VFun 2) (VNum 0) [VFun 1]) =
     (Inr (VNum 0), store_world example_funs (VFun 2) (VNum 0) [VFun 1])"
proof -
  let ?w = "store_world example_funs (VFun 2) (VNum 0) [VFun 1]"
  have h1: "valid_action (action_of 100 ''BAD'')" by simp
  have h2: "\<not> isDispatching ?w" by (simp add: store_world_def)
  have h3: "call 1 (?w\<lparr>isDispatching := True\<rparr>) (currentReducer ?w)
              [currentState ?w, action_of 100 ''BAD''] =
            Some (Inl (Thrown (VStr ''boom'')), ?w\<lparr>isDispatching := True\<rparr>)"
    by (simp add: ex ev)
  have same: "?w\<lparr>isDispatching := True, isDispatching := False\<rparr> = ?w"
    by (simp add: store_world_def)
  from reducer_error_aborts_dispatch [OF h1 h2 h3, of 1] show ?thesis
    by (simp add: same store_world_def)
qed

text \<open>
  Claim C1, as stated, fails: a listener is invoked after the in-progress flag has
  been cleared, so a dispatch issued from a listener goes through.  Below, the
  listener \<open>inc_once\<close> dispatches \<open>INC\<close> during the pass of a \<open>NOOP\<close> dispatch:
  the outer dispatch returns its action, the state has become 1, and the listener
  has run in both passes.  And while a dispatch is in progress, an action that is
  not a plain object is rejected for its shape, not for reentrancy.
\<close>

theorem listener_dispatch_counterexample:
  "observe (call 6 (store_world example_funs (VFun 0) (VNum 0) [VFun 1]) (VFun 11)
              [action_of 100 ''NOOP''])
     = Some (Inr (action_of 100 ''NOOP''), VNum 1, [VFun 1, VFun 1]) \<and>
   dispatch (call 1) 1 ((store_world example_funs (VFun 0) (VNum 0) [])\<lparr>isDispatching := True\<rparr>)
     (VNum 5)
     = Some (Inl (Error not_plain_object_message),
             (store_world example_funs (VFun 0) (VNum 0) [])\<lparr>isDispatching := True\<rparr>)"
  by (simp add: ex ev)

lemma dispatch_not_plain:
  "\<not> isPlainObject a \<Longrightarrow> dispatch cl m w a = Some (Inl (Error not_plain_object_message), w)"
  by (simp add: dispatch_def)

lemma dispatch_undefined_type:
  "isPlainObject a \<Longrightarrow> get_prop a ''type'' = Inr VUndefined \<Longrightarrow>
   dispatch cl m w a = Some (Inl (Error undefined_type_message), w)"
  by (simp add: dispatch_def is_undefined_def)

lemma invalid_action_cases:
  "\<not> valid_action a \<Longrightarrow> \<not> isPlainObject a \<or> get_prop a ''type'' = Inr VUndefined"
  by (cases a) (auto simp: valid_action_def isPlainObject_def get_prop_def is_undefined_def
                     split: val.splits)

text \<open>
  Claim C1, amended.  An action that is not a plain object, or a plain object whose
  \<open>type\<close> is undefined, is rejected for its shape, whether or not a dispatch is in
  progress, and an action that is not valid is one of the two.  For a valid action:
  \<open>dispatch\<close> called while a dispatch is in progress raises the reentrancy error and
  changes nothing, and no call made meanwhile clears the flag, so this holds for the
  whole run of the transition function.  When no dispatch is in progress and the
  transition function returns, the listener loop starts with the flag cleared.
\<close>

theorem dispatch_reentrancy:
  "(\<not> isPlainObject a \<longrightarrow>
      dispatch cl m w a = Some (Inl (Error not_plain_object_message), w)) \<and>
   (isPlainObject a \<and> get_prop a ''type'' = Inr VUndefined \<longrightarrow>
      dispatch cl m w a = Some (Inl (Error undefined_type_message), w)) \<and>
   (\<not> valid_action a \<longrightarrow> \<not> isPlainObject a \<or> get_prop a ''type'' = Inr VUndefined) \<and>
   (valid_action a \<longrightarrow>
      (isDispatching w \<longrightarrow>
         dispatch cl m w a = Some (Inl (Error dispatch_reentrancy_message), w) \<and>
         (\<forall>f args r w'. call n w f args = Some (r, w') \<longrightarrow> isDispatching w')) \<and>
      (\<not> isDispatching w \<longrightarrow>
         (\<forall>s w1. cl (w\<lparr>isDispatching := True\<rparr>) (currentReducer w) [currentState w, a] = Some (Inr s, w1) \<longrightarrow>
            \<not> isDispatching (w1\<lparr>currentState := s, isDispatching := False,
                                currentListeners := Some (nextListeners w1)\<rparr>) \<and>
            dispatch cl m w a =
              after_listeners a
                (notify cl m (w1\<lparr>currentState := s, isDispatching := False,
                                 currentListeners := Some (nextListeners w1)\<rparr>) (nextListeners w1) 0))))"
  using dispatch_not_plain [of a cl m w] dispatch_undefined_type [of a cl m w]
    invalid_action_cases [of a]
  by (auto simp: dispatch_rejected dispatch_reducer_returns dest: call_evolves simp: evolves_def)

theorem dispatch_reentrancy_witness:
  "dispatch (call 1) 1 ((store_world example_funs (VFun 0) (VNum 0) [])\<lparr>isDispatching := True\<rparr>)
     (action_of 100 ''INC'') =
     Some (Inl (Error dispatch_reentrancy_message),
           (store_world example_funs (VFun 0) (VNum 0) [])\<lparr>isDispatching := True\<rparr>) \<and>
   dispatch (call 1) 1 ((store_world example_funs (VFun 0) (VNum 0) [])\<lparr>isDispatching := True\<rparr>)
     (VInst 100 [(''type'', VStr ''INC'')]) =
     Some (Inl (Error not_plain_object_message),
           (store_world example_funs (VFun 0) (VNum 0) [])\<lparr>isDispatching := True\<rparr>) \<and>
   dispatch (call 1) 1 ((store_world example_funs (VFun 0) (VNum 0) [])\<lparr>isDispatching := True\<rparr>)
     (VObj 100 [(''payload'', VNum 1)]) =
     Some (Inl (Error undefined_type_message),
           (store_world example_funs (VFun 0) (VNum 0) [])\<lparr>isDispatching := True\<rparr>) \<and>
   observe (dispatch (call 3) 3 (store_world example_funs (VFun 3) (VNum 0) []) (action_of 100 ''NEST''))
     = Some (Inl (Error dispatch_reentrancy_message), VNum 0, []) \<and>
   observe (dispatch (call 1) 1 (store_world example_funs (VFun 0) (VNum 0) []) (action_of 100 ''INC''))
     = Some (Inr (action_of 100 ''INC''), VNum 1, [])"
proof -
  let ?w = "store_world example_funs (VFun 0) (VNum 0) []"
  let ?b = "?w\<lparr>isDispatching := True\<rparr>"
  let ?a = "action_of 100 ''INC''"
  have h: "valid_action ?a" by simp
  have busy: "isDispatching ?b" by simp
  have idle: "\<not> isDispatching ?w" by (simp add: store_world_def)
  have np: "\<not> isPlainObject (VInst 100 [(''type'', VStr ''INC'')])"
    by (simp add: isPlainObject_def)
  have ut: "isPlainObject (VObj 100 [(''payload'', VNum 1)]) \<and>
            get_prop (VObj 100 [(''payload'', VNum 1)]) ''type'' = Inr VUndefined"
    by (simp add: isPlainObject_def get_prop_def lookup_prop_def)
  have r: "call 1 (?w\<lparr>isDispatching := True\<rparr>) (currentReducer ?w) [currentState ?w, ?a] =
           Some (Inr (VNum 1), ?w\<lparr>isDispatching := True\<rparr>)"
    by (simp add: ex ev)
  from dispatch_reentrancy [of ?a "call 1" 1 ?b 0] h busy
  have c1: "dispatch (call 1) 1 ?b ?a = Some (Inl (Error dispatch_reentrancy_message), ?b)"
    by blast
  from dispatch_reentrancy [of "VInst 100 [(''type'', VStr ''INC'')]" "call 1" 1 ?b 0] np
  have c1a: "dispatch (call 1) 1 ?b (VInst 100 [(''type'', VStr ''INC'')]) =
               Some (Inl (Error not_plain_object_message), ?b)"
    by blast
  from dispatch_reentrancy [of "VObj 100 [(''payload'', VNum 1)]" "call 1" 1 ?b 0] ut
  have c1b: "dispatch (call 1) 1 ?b (VObj 100 [(''payload'', VNum 1)]) =
               Some (Inl (Error undefined_type_message), ?b)"
    by blast
  have c2: "observe (dispatch (call 3) 3 (store_world example_funs (VFun 3) (VNum 0) [])
              (action_of 100 ''NEST'')) = Some (Inl (Error dispatch_reentrancy_message), VNum 0, [])"
    by (simp add: ex ev)
  from dispatch_reentrancy [of ?a "call 1" 1 ?w 0] h idle r
  have "dispatch (call 1) 1 ?w ?a =
          after_listeners ?a
            (notify (call 1) 1
               (?w\<lparr>isDispatching := True, currentState := VNum 1, isDispatching := False,
                    currentListeners := Some (nextListeners (?w\<lparr>isDispatching := True\<rparr>))\<rparr>)
               (nextListeners (?w\<lparr>isDispatching := True\<rparr>)) 0)"
    by blast
  then have c3: "observe (dispatch (call 1) 1 ?w ?a) = Some (Inr ?a, VNum 1, [])"
    by (simp add: after_listeners_def observe_def store_world_def)
  from c1 c1a c1b c2 c3 show ?thesis by (intro conjI)
qed

section \<open>Subscriptions and the listener snapshot\<close>

lemma notify_is_frozen:
  "snapshot_inv ls w \<Longrightarrow> \<not> isDispatching w \<Longrightarrow> arrays w ls = Some xs \<Longrightarrow> length xs - i < m \<Longrightarrow>
   notify (call n) m w ls i = notify_frozen (call n) w (drop i xs)"
proof (induction m arbitrary: w i)
  case 0 then show ?case by simp
next
  case (Suc m)
  show ?case
  proof (cases "i < length xs")
    case False
    with Suc.prems show ?thesis by simp
  next
    case True
    let ?w0 = "w\<lparr>log := log w @ [xs ! i]\<rparr>"
    have dr: "drop i xs = xs ! i # drop (Suc i) xs" using True by (simp add: Cons_nth_drop_Suc)
    show ?thesis
    proof (cases "call n ?w0 (xs ! i) []")
      case None
      with Suc.prems True dr show ?thesis by simp
    next
      case (Some x)
      obtain r1 w1 where x: "x = (r1, w1)" by (cases x)
      have e: "evolves ?w0 w1" using Some x by (auto intro: call_evolves)
      have inv0: "snapshot_inv ls ?w0" using Suc.prems(1) by (simp add: snapshot_inv_def)
      from e inv0 have inv1: "snapshot_inv ls w1" and a1: "arrays w1 ls = Some xs"
        using Suc.prems(3) by (auto simp: evolves_def)
      from e Suc.prems(2) have nd: "\<not> isDispatching w1" by (simp add: evolves_def)
      show ?thesis
      proof (cases r1)
        case (Inl err)
        with Some x Suc.prems True dr show ?thesis by simp
      next
        case (Inr v)
        have "length xs - Suc i < m" using Suc.prems(4) True by arith
        from Suc.IH[OF inv1 nd a1 this] Some x Inr Suc.prems True dr show ?thesis by simp
      qed
    qed
  qed
qed

lemma dispatch_pass_frozen:
  assumes "valid_action a" and "\<not> isDispatching w" and "nextListeners w < fresh w"
    and "arrays w (nextListeners w) = Some xs" and "length xs < m"
    and "call n (w\<lparr>isDispatching := True\<rparr>) (currentReducer w) [currentState w, a] = Some (Inr s, w1)"
  shows "dispatch (call n) m w a =
           after_listeners a
             (notify_frozen (call n)
                (w1\<lparr>currentState := s, isDispatching := False,
                     currentListeners := Some (nextListeners w)\<rparr>) xs)"
proof -
  from call_evolves[OF assms(6)]
  have n1: "nextListeners w1 = nextListeners w" and a1: "arrays w1 = arrays w" and f1: "fresh w \<le> fresh w1"
    by (simp_all add: evolves_def)
  let ?w3 = "w1\<lparr>currentState := s, isDispatching := False, currentListeners := Some (nextListeners w1)\<rparr>"
  have inv: "snapshot_inv (nextListeners w1) ?w3" using n1 f1 assms(3) by (simp add: snapshot_inv_def)
  have "notify (call n) m ?w3 (nextListeners w1) 0 = notify_frozen (call n) ?w3 (drop 0 xs)"
    using notify_is_frozen[OF inv, of xs 0 m n] a1 n1 assms(4,5) by simp
  with dispatch_reducer_returns[of a w "call n" s w1 m] assms(1,2,6) n1 show ?thesis by simp
qed


lemma subscribe_registers:
  assumes "is_function l" and "\<not> isDispatching w" and "arrays w (nextListeners w) = Some ys"
  shows "\<exists>u w'. subscribe w l = (Inr (VFun u), w') \<and>
           arrays w' (nextListeners w') = Some (ys @ [l]) \<and>
           funs w' u = Some (Unsubscribe l True) \<and> fresh w \<le> u \<and> u < fresh w' \<and>
           (\<forall>j. j < fresh w \<longrightarrow> funs w' j = funs w j) \<and>
           \<not> isDispatching w' \<and>
           (nextListeners w < fresh w \<longrightarrow> nextListeners w' < fresh w') \<and>
           currentReducer w' = currentReducer w \<and> currentState w' = currentState w"
  using assms
  by (auto simp: subscribe_def Let_def new_fun_def array_push_def ensureCanMutateNextListeners_def)

lemma index_of_fun: "index_of xs (VFun l) = None \<longleftrightarrow> VFun l \<notin> set xs"
  by (induction xs) (auto split: val.splits)

lemma strict_eq_fun: "strict_eq x (VFun l) \<longleftrightarrow> x = VFun l"
  by (cases x) auto

lemma splice1_remove1:
  "VFun l \<in> set xs \<Longrightarrow> splice1 xs (index_of xs (VFun l)) = remove1 (VFun l) xs"
proof (induction xs)
  case Nil then show ?case by simp
next
  case (Cons x xs)
  show ?case
  proof (cases "x = VFun l")
    case True
    then show ?thesis by (simp add: splice1_def)
  next
    case False
    with Cons.prems have m: "VFun l \<in> set xs" by simp
    then obtain k where k: "index_of xs (VFun l) = Some k"
      using index_of_fun[of xs l] by (cases "index_of xs (VFun l)") auto
    from Cons.IH[OF m] k False show ?thesis
      by (simp add: splice1_def strict_eq_fun)
  qed
qed

lemma unsubscribe_removes:
  assumes "funs w u = Some (Unsubscribe (VFun l) True)" and "\<not> isDispatching w"
    and "arrays w (nextListeners w) = Some zs" and "VFun l \<in> set zs"
  shows "\<exists>w'. call_fn cl m w (VFun u) [] = Some (Inr VUndefined, w') \<and>
           arrays w' (nextListeners w') = Some (remove1 (VFun l) zs) \<and>
           funs w' u = Some (Unsubscribe (VFun l) False) \<and> \<not> isDispatching w' \<and>
           (nextListeners w < fresh w \<longrightarrow> nextListeners w' < fresh w') \<and>
           currentReducer w' = currentReducer w \<and> currentState w' = currentState w"
  using assms splice1_remove1[OF assms(4)]
  by (auto simp: call_fn_def unsubscribe_def Let_def ensureCanMutateNextListeners_def)

lemma dispatch_notifies_snapshot:
  "\<not> isDispatching w \<Longrightarrow> nextListeners w < fresh w \<Longrightarrow> arrays w (nextListeners w) = Some zs \<Longrightarrow>
   dispatch_notifies n m w zs"
  unfolding dispatch_notifies_def by (blast intro: dispatch_pass_frozen)

text \<open>
  Claim C7.  \<open>subscribe\<close> with a function raises the reentrancy error while a
  dispatch is in progress.  When none is, as in a listener that a dispatch pass is
  notifying, it succeeds and appends the listener to the next list, and every frozen
  snapshot stays as it was.  A dispatch invokes exactly the listeners that were
  registered when it began, so a listener added during the pass is first invoked by
  the next dispatch.
\<close>

theorem subscribe_snapshot:
  assumes "is_function l"
  shows "(isDispatching w \<longrightarrow> subscribe w l = (Inl (Error subscribe_reentrancy_message), w)) \<and>
         (\<not> isDispatching w \<and> arrays w (nextListeners w) = Some ys \<longrightarrow>
            (\<exists>u w'. subscribe w l = (Inr u, w') \<and>
               arrays w' (nextListeners w') = Some (ys @ [l]) \<and>
               (\<forall>ls. snapshot_inv ls w \<longrightarrow> snapshot_inv ls w' \<and> arrays w' ls = arrays w ls))) \<and>
         (\<forall>w0 xs. \<not> isDispatching w0 \<and> nextListeners w0 < fresh w0 \<and>
                  arrays w0 (nextListeners w0) = Some xs
                  \<longrightarrow> dispatch_notifies n m w0 xs)"
proof (intro conjI impI allI)
  assume "isDispatching w"
  with assms show "subscribe w l = (Inl (Error subscribe_reentrancy_message), w)"
    by (simp add: subscribe_def)
next
  assume h: "\<not> isDispatching w \<and> arrays w (nextListeners w) = Some ys"
  with subscribe_registers[OF assms, of w ys]
  obtain u w' where s: "subscribe w l = (Inr (VFun u), w')"
    and a: "arrays w' (nextListeners w') = Some (ys @ [l])" by blast
  from subscribe_evolves[OF s]
  have "\<forall>ls. snapshot_inv ls w \<longrightarrow> snapshot_inv ls w' \<and> arrays w' ls = arrays w ls"
    by (simp add: evolves_def)
  with s a show "\<exists>u w'. subscribe w l = (Inr u, w') \<and>
               arrays w' (nextListeners w') = Some (ys @ [l]) \<and>
               (\<forall>ls. snapshot_inv ls w \<longrightarrow> snapshot_inv ls w' \<and> arrays w' ls = arrays w ls)"
    by blast
next
  fix w0 :: world and xs
  assume "\<not> isDispatching w0 \<and> nextListeners w0 < fresh w0 \<and> arrays w0 (nextListeners w0) = Some xs"
  then show "dispatch_notifies n m w0 xs" by (blast intro: dispatch_notifies_snapshot)
qed

theorem subscribe_snapshot_witness:
  "subscribe ((store_world listener_funs (VFun 0) (VNum 0) [VFun 6])\<lparr>isDispatching := True\<rparr>) (VFun 7) =
     (Inl (Error subscribe_reentrancy_message),
      (store_world listener_funs (VFun 0) (VNum 0) [VFun 6])\<lparr>isDispatching := True\<rparr>) \<and>
   observe (dispatch (call 3) 3 (store_world listener_funs (VFun 0) (VNum 0) [VFun 6])
              (action_of 100 ''NOOP''))
     = Some (Inr (action_of 100 ''NOOP''), VNum 0, [VFun 6]) \<and>
   observe (then_dispatch 3
              (dispatch (call 3) 3 (store_world listener_funs (VFun 0) (VNum 0) [VFun 6])
                 (action_of 100 ''NOOP''))
              (action_of 101 ''NOOP''))
     = Some (Inr (action_of 101 ''NOOP''), VNum 0, [VFun 6, VFun 6, VFun 7])"
proof -
  let ?w = "store_world listener_funs (VFun 0) (VNum 0) [VFun 6]"
  have h: "is_function (VFun 7)" by (simp add: is_function_def)
  have hw: "\<not> isDispatching ?w \<and> nextListeners ?w < fresh ?w \<and>
            arrays ?w (nextListeners ?w) = Some [VFun 6]"
    by (simp add: store_world_def)
  from subscribe_snapshot [OF h, of "?w\<lparr>isDispatching := True\<rparr>" "[]" 3 3]
  have c1: "subscribe (?w\<lparr>isDispatching := True\<rparr>) (VFun 7) =
              (Inl (Error subscribe_reentrancy_message), ?w\<lparr>isDispatching := True\<rparr>)"
    and dn: "dispatch_notifies 3 3 ?w [VFun 6]"
    using hw by auto
  have c2: "dispatch (call 3) 3 ?w (action_of 100 ''NOOP'') =
              Some (Inr (action_of 100 ''NOOP''),
                    ?w\<lparr>funs := (funs ?w)(18 \<mapsto> Unsubscribe (VFun 7) True),
                        arrays := (arrays ?w)(17 \<mapsto> [VFun 6, VFun 7]),
                        fresh := 19, nextListeners := 17, log := [VFun 6]\<rparr>)"
    by (simp add: listener_funs_def subscribing_def quiet_def subscribe_def
          ensureCanMutateNextListeners_def array_push_def ex ev)
  have c3: "observe (dispatch (call 3) 3 ?w (action_of 100 ''NOOP'')) =
              Some (Inr (action_of 100 ''NOOP''), VNum 0, [VFun 6])"
    unfolding c2 by (simp add: observe_def store_world_def)
  have c4: "observe (then_dispatch 3 (dispatch (call 3) 3 ?w (action_of 100 ''NOOP''))
              (action_of 101 ''NOOP'')) =
              Some (Inr (action_of 101 ''NOOP''), VNum 0, [VFun 6, VFun 6, VFun 7])"
    unfolding c2
    by (simp add: then_dispatch_def listener_funs_def subscribing_def quiet_def subscribe_def
        ensureCanMutateNextListeners_def array_push_def ex ev)
  from c1 c3 c4 show ?thesis by (intro conjI)
qed

lemma count_remove1_twice:
  "count_list (remove1 x (xs @ [x, x])) x = Suc (count_list xs x)"
  by (induction xs) auto

text \<open>
  Claim C9.  On an idle store with listeners \<open>xs\<close>, subscribing the same function
  twice gives two unsubscribe functions and two more entries in the list, and a
  dispatch invokes it once per entry.  Calling either unsubscribe function once
  removes the first occurrence found, which leaves one occurrence more than \<open>xs\<close>
  has, and a dispatch then invokes the listeners of that list.
\<close>

theorem duplicate_subscription:
  assumes "\<not> isDispatching w" and "nextListeners w < fresh w"
    and "arrays w (nextListeners w) = Some xs"
  shows "\<exists>u1 w1 u2 w2.
           subscribe w (VFun l) = (Inr (VFun u1), w1) \<and>
           subscribe w1 (VFun l) = (Inr (VFun u2), w2) \<and> u1 \<noteq> u2 \<and>
           arrays w2 (nextListeners w2) = Some (xs @ [VFun l, VFun l]) \<and>
           dispatch_notifies n m w2 (xs @ [VFun l, VFun l]) \<and>
           (\<forall>u \<in> {u1, u2}. \<exists>w3.
              call_fn cl k w2 (VFun u) [] = Some (Inr VUndefined, w3) \<and>
              arrays w3 (nextListeners w3) = Some (remove1 (VFun l) (xs @ [VFun l, VFun l])) \<and>
              count_list (remove1 (VFun l) (xs @ [VFun l, VFun l])) (VFun l) =
                Suc (count_list xs (VFun l)) \<and>
              dispatch_notifies n m w3 (remove1 (VFun l) (xs @ [VFun l, VFun l])))"
proof -
  have f: "is_function (VFun l)" by (simp add: is_function_def)
  from subscribe_registers[OF f assms(1,3)]
  obtain u1 w1 where s1: "subscribe w (VFun l) = (Inr (VFun u1), w1)"
    and a1: "arrays w1 (nextListeners w1) = Some (xs @ [VFun l])"
    and f1: "funs w1 u1 = Some (Unsubscribe (VFun l) True)" and u1: "u1 < fresh w1"
    and d1: "\<not> isDispatching w1" and n1: "nextListeners w1 < fresh w1"
    using assms(2) by blast
  from subscribe_registers[OF f d1 a1]
  obtain u2 w2 where s2: "subscribe w1 (VFun l) = (Inr (VFun u2), w2)"
    and a2: "arrays w2 (nextListeners w2) = Some ((xs @ [VFun l]) @ [VFun l])"
    and f2: "funs w2 u2 = Some (Unsubscribe (VFun l) True)" and u2: "fresh w1 \<le> u2"
    and keep: "\<forall>j. j < fresh w1 \<longrightarrow> funs w2 j = funs w1 j"
    and d2: "\<not> isDispatching w2" and n2: "nextListeners w2 < fresh w2"
    using n1 by blast
  let ?zs = "xs @ [VFun l, VFun l]"
  have a2': "arrays w2 (nextListeners w2) = Some ?zs" using a2 by simp
  have f1': "funs w2 u1 = Some (Unsubscribe (VFun l) True)" using keep u1 f1 by simp
  have mem: "VFun l \<in> set ?zs" by simp
  have ne: "u1 \<noteq> u2" using u1 u2 by arith
  have each: "\<exists>w3. call_fn cl k w2 (VFun u) [] = Some (Inr VUndefined, w3) \<and>
              arrays w3 (nextListeners w3) = Some (remove1 (VFun l) ?zs) \<and>
              count_list (remove1 (VFun l) ?zs) (VFun l) = Suc (count_list xs (VFun l)) \<and>
              dispatch_notifies n m w3 (remove1 (VFun l) ?zs)"
    if "funs w2 u = Some (Unsubscribe (VFun l) True)" for u
  proof -
    from unsubscribe_removes[OF that d2 a2' mem, of cl k] n2
    obtain w3 where c: "call_fn cl k w2 (VFun u) [] = Some (Inr VUndefined, w3)"
      and a3: "arrays w3 (nextListeners w3) = Some (remove1 (VFun l) ?zs)"
      and d3: "\<not> isDispatching w3" and n3: "nextListeners w3 < fresh w3" by blast
    from dispatch_notifies_snapshot[OF d3 n3 a3] c a3 count_remove1_twice[of "VFun l" xs]
    show ?thesis by blast
  qed
  from s1 s2 ne a2' dispatch_notifies_snapshot[OF d2 n2 a2'] each[OF f1'] each[OF f2]
  show ?thesis by blast
qed

theorem duplicate_subscription_witness:
  "observe (dispatch (call 2) 3
      (snd (subscribe (snd (subscribe (store_world listener_funs (VFun 0) (VNum 0) []) (VFun 7)))
              (VFun 7)))
      (action_of 100 ''NOOP''))
     = Some (Inr (action_of 100 ''NOOP''), VNum 0, [VFun 7, VFun 7]) \<and>
   observe (then_dispatch 3
      (call 1 (snd (subscribe (snd (subscribe (store_world listener_funs (VFun 0) (VNum 0) []) (VFun 7)))
                      (VFun 7)))
         (VFun 18) [])
      (action_of 100 ''NOOP''))
     = Some (Inr (action_of 100 ''NOOP''), VNum 0, [VFun 7]) \<and>
   observe (then_dispatch 3
      (call 1 (snd (subscribe (snd (subscribe (store_world listener_funs (VFun 0) (VNum 0) []) (VFun 7)))
                      (VFun 7)))
         (VFun 19) [])
      (action_of 100 ''NOOP''))
     = Some (Inr (action_of 100 ''NOOP''), VNum 0, [VFun 7])"
proof -
  let ?w = "store_world listener_funs (VFun 0) (VNum 0) []"
  have h1: "\<not> isDispatching ?w" and h2: "nextListeners ?w < fresh ?w"
    and h3: "arrays ?w (nextListeners ?w) = Some []"
    by (simp_all add: store_world_def)
  have s: "snd (subscribe (snd (subscribe ?w (VFun 7))) (VFun 7)) =
           ?w\<lparr>funs := (funs ?w)(18 \<mapsto> Unsubscribe (VFun 7) True, 19 \<mapsto> Unsubscribe (VFun 7) True),
               arrays := (arrays ?w)(17 \<mapsto> [VFun 7, VFun 7]),
               fresh := 20, nextListeners := 17\<rparr>"
    by (simp add: subscribe_def store_world_def Let_def ensureCanMutateNextListeners_def
          array_push_def new_fun_def is_function_def)
  have e1: "observe (dispatch (call 2) 3 (snd (subscribe (snd (subscribe ?w (VFun 7))) (VFun 7)))
              (action_of 100 ''NOOP'')) = Some (Inr (action_of 100 ''NOOP''), VNum 0, [VFun 7, VFun 7])"
    unfolding s by (simp add: listener_funs_def quiet_def ex ev)
  have e2: "observe (then_dispatch 3 (call 1 (snd (subscribe (snd (subscribe ?w (VFun 7))) (VFun 7)))
              (VFun 18) []) (action_of 100 ''NOOP'')) = Some (Inr (action_of 100 ''NOOP''), VNum 0, [VFun 7])"
    unfolding s
    by (simp add: then_dispatch_def unsubscribe_def ensureCanMutateNextListeners_def splice1_def
          listener_funs_def quiet_def ex ev)
  have e3: "observe (then_dispatch 3 (call 1 (snd (subscribe (snd (subscribe ?w (VFun 7))) (VFun 7)))
              (VFun 19) []) (action_of 100 ''NOOP'')) = Some (Inr (action_of 100 ''NOOP''), VNum 0, [VFun 7])"
    unfolding s
    by (simp add: then_dispatch_def unsubscribe_def ensureCanMutateNextListeners_def splice1_def
          listener_funs_def quiet_def ex ev)
  from duplicate_subscription [OF h1 h2 h3, of 7 2 3 "call 0" 0] e1 e2 e3
  show ?thesis by blast
qed

section \<open>The composite reducer\<close>

lemma set_prop_new: "key \<notin> fst ` set ns \<Longrightarrow> set_prop ns key v = ns @ [(key, v)]"
  by (induction ns) auto

lemma slice_calls_length: "slice_calls cl w fs a frs = Some (vs, w') \<Longrightarrow> length vs = length frs"
  by (induction frs arbitrary: w vs)
     (auto split: option.splits sum.splits if_splits prod.splits)

lemma slice_calls_evolves:
  "well_behaved cl \<Longrightarrow> slice_calls cl w fs a frs = Some (vs, w') \<Longrightarrow> evolves w w'"
proof (induction frs arbitrary: w vs)
  case Nil then show ?case by (simp add: evolves_refl)
next
  case (Cons kr rest)
  from Cons.prems(2) obtain v w1 vs' where
    c: "cl w (snd kr) [lookup_prop fs (fst kr), a] = Some (Inr v, w1)"
    and r: "slice_calls cl w1 fs a rest = Some (vs', w')"
    by (auto split: option.splits sum.splits if_splits prod.splits)
  from well_behavedD[OF Cons.prems(1) c] Cons.IH[OF Cons.prems(1) r] show ?case
    by (rule evolves_trans)
qed

lemma combination_loop_slices:
  "slice_calls cl w fs a frs = Some (vs, w') \<Longrightarrow> distinct (map fst frs) \<Longrightarrow>
   fst ` set ns \<inter> fst ` set frs = {} \<Longrightarrow>
   combination_loop cl w (VObj i fs) a hc ns frs =
     Some (Inr (hc \<or> \<not> slices_unchanged fs frs vs, ns @ slice_results frs vs), w')"
proof (induction frs arbitrary: w vs hc ns)
  case Nil
  then show ?case by (simp add: slices_unchanged_def slice_results_def)
next
  case (Cons kr rest)
  from Cons.prems(1) obtain v w1 vs' where
    c: "cl w (snd kr) [lookup_prop fs (fst kr), a] = Some (Inr v, w1)"
    and dv: "\<not> is_undefined v"
    and r: "slice_calls cl w1 fs a rest = Some (vs', w')" and vs: "vs = v # vs'"
    by (auto split: option.splits sum.splits if_splits prod.splits)
  have knew: "fst kr \<notin> fst ` set ns" using Cons.prems(3) by auto
  have sp: "set_prop ns (fst kr) v = ns @ [(fst kr, v)]" using knew by (rule set_prop_new)
  have d': "distinct (map fst rest)" using Cons.prems(2) by simp
  have disj': "fst ` set (ns @ [(fst kr, v)]) \<inter> fst ` set rest = {}"
    using Cons.prems(2,3) by auto
  from Cons.IH[OF r d' disj', of "hc \<or> \<not> strict_eq v (lookup_prop fs (fst kr))"]
  show ?case using c dv sp vs
    by (auto simp: get_prop_def slices_unchanged_def slice_results_def)
qed

lemma combination_slices:
  assumes "slice_calls cl (allocated w) fs a frs = Some (vs, w')" and "distinct (map fst frs)"
  shows "combination cl frs None w (VObj i fs) a =
           Some (Inr (if slices_unchanged fs frs vs \<and> length frs = length fs then VObj i fs
                      else VObj (fresh w) (slice_results frs vs)), w')"
  using combination_loop_slices[OF assms, of "[]" i False]
  by (auto simp: combination_def raised_def is_undefined_def alloc_def object_keys_def allocated_def)

text \<open>
  Claim C3.  Calling a composite reducer without validation error, with retained
  reducers \<open>frs\<close> under distinct keys, on a composite state \<open>VObj i fs\<close> and an
  action, where the reducers, called in key order on their slices, return the defined
  values \<open>vs\<close> (they may allocate and change the world): the result is the state
  itself when no result differs by reference from its slice and \<open>frs\<close> has as many
  keys as the state, and otherwise an object that maps every retained key to its
  result.  That object is new: its identity is the allocation counter of the world
  before the call, the counter has moved past it afterwards, and it is not the
  incoming state when that was allocated before.
\<close>

theorem composite_same_or_new:
  assumes "funs w f = Some (Combination frs None)" and "distinct (map fst frs)"
    and "well_behaved cl"
    and "slice_calls cl (allocated w) fs a frs = Some (vs, w')"
  shows "call_fn cl m w (VFun f) [VObj i fs, a] =
           Some (Inr (if slices_unchanged fs frs vs \<and> length frs = length fs then VObj i fs
                      else VObj (fresh w) (slice_results frs vs)), w') \<and>
         map fst (slice_results frs vs) = map fst frs \<and>
         fresh w < fresh w' \<and>
         (i < fresh w \<longrightarrow> \<not> strict_eq (VObj (fresh w) (slice_results frs vs)) (VObj i fs))"
proof -
  have "evolves (allocated w) w'" using slice_calls_evolves[OF assms(3,4)] .
  then have "fresh w < fresh w'" by (simp add: evolves_def allocated_def)
  moreover have "map fst (slice_results frs vs) = map fst frs"
    using slice_calls_length[OF assms(4)] by (simp add: slice_results_def)
  ultimately show ?thesis
    using combination_slices[OF assms(4,2), of i] assms(1)
    by (auto simp: call_fn_def arg_def)
qed

theorem composite_same_or_new_witness:
  "map_option fst (call_fn (call 1) 1 (empty_world boxing_funs 30) (VFun 6)
                     [VObj 25 [(''count'', VNum 2)], action_of 100 ''NOOP''])
     = Some (Inr (VObj 25 [(''count'', VNum 2)])) \<and>
   map_option fst (call_fn (call 1) 1 (empty_world boxing_funs 30) (VFun 6)
                     [VObj 25 [(''count'', VNum 2), (''other'', VNum 1)], action_of 100 ''NOOP''])
     = Some (Inr (VObj 30 [(''count'', VNum 2)])) \<and>
   map_option fst (call_fn (call 1) 1 (empty_world boxing_funs 30) (VFun 20)
                     [VObj 25 [(''count'', VNum 2), (''box'', VObj 24 [(''value'', VNum 1)])],
                      action_of 100 ''NOOP''])
     = Some (Inr (VObj 30 [(''count'', VNum 2),
                           (''box'', VObj 31 [(''value'', VObj 24 [(''value'', VNum 1)])])])) \<and>
   \<not> strict_eq (VObj 30 [(''count'', VNum 2),
                           (''box'', VObj 31 [(''value'', VObj 24 [(''value'', VNum 1)])])])
                (VObj 25 [(''count'', VNum 2), (''box'', VObj 24 [(''value'', VNum 1)])])"
proof -
  let ?w = "empty_world boxing_funs 30"
  let ?a = "action_of 100 ''NOOP''"
  let ?box = "VObj 24 [(''value'', VNum 1)]"
  have f6: "funs ?w 6 = Some (Combination [(''count'', VFun 0)] None)"
    and f20: "funs ?w 20 = Some (Combination [(''count'', VFun 0), (''box'', VFun 9)] None)"
    by (simp_all add: empty_world_def boxing_funs_def composer_funs_def)
  have d6: "distinct (map fst [(''count'', VFun 0)])"
    and d20: "distinct (map fst [(''count'', VFun 0), (''box'', VFun 9)])" by simp_all
  have s1: "slice_calls (call 1) (allocated ?w) [(''count'', VNum 2)] ?a [(''count'', VFun 0)] =
              Some ([VNum 2], ?w\<lparr>fresh := 31\<rparr>)"
    by (simp add: allocated_def empty_world_def boxing_funs_def composer_funs_def lookup_prop_def ex ev)
  have s2: "slice_calls (call 1) (allocated ?w) [(''count'', VNum 2), (''other'', VNum 1)] ?a
              [(''count'', VFun 0)] = Some ([VNum 2], ?w\<lparr>fresh := 31\<rparr>)"
    by (simp add: allocated_def empty_world_def boxing_funs_def composer_funs_def lookup_prop_def ex ev)
  have s3: "slice_calls (call 1) (allocated ?w) [(''count'', VNum 2), (''box'', ?box)] ?a
              [(''count'', VFun 0), (''box'', VFun 9)] =
              Some ([VNum 2, VObj 31 [(''value'', ?box)]], ?w\<lparr>fresh := 32\<rparr>)"
    by (simp add: allocated_def empty_world_def boxing_funs_def composer_funs_def lookup_prop_def
          boxing_def ex ev)
  from composite_same_or_new [OF f6 d6 call_well_behaved s1, of 1 25]
       composite_same_or_new [OF f6 d6 call_well_behaved s2, of 1 25]
       composite_same_or_new [OF f20 d20 call_well_behaved s3, of 1 25]
  show ?thesis
    by (simp add: slices_unchanged_def slice_results_def lookup_prop_def empty_world_def)
qed

text \<open>
  What \<open>combineReducers\<close> builds from \<open>{count: counter}\<close>: the closure that the
  example table holds at 6.
\<close>

lemma combineReducers_example:
  "combineReducers (call 1) (empty_world example_funs 30) (VObj 60 [(''count'', VFun 0)]) =
     Some (Inr (VFun 32),
           (empty_world example_funs 30)
             \<lparr>funs := example_funs(32 \<mapsto> Combination [(''count'', VFun 0)] None), fresh := 33\<rparr>)"
  by (simp add: combineReducers_def object_keys_def props_of_def finalReducers_of_def new_fun_def
        empty_world_def ActionTypes_INIT_def ActionTypes_PROBE_UNKNOWN_ACTION_def ex ev)

text \<open>
  The example of the spec: with the composite \<open>{count: counter}\<close>, two \<open>INC\<close>
  dispatches lead to \<open>{count: 2}\<close>, and a \<open>NOOP\<close> dispatch leaves the very same
  state object in place.
\<close>

lemma end_to_end_example:
  "observe (then_dispatch 2
      (dispatch (call 2) 2 (store_world composer_funs (VFun 6) (VObj 40 [(''count'', VNum 0)]) [])
         (action_of 100 ''INC''))
      (action_of 101 ''INC''))
     = Some (Inr (action_of 101 ''INC''), VObj 18 [(''count'', VNum 2)], []) \<and>
   observe (then_dispatch 2 (then_dispatch 2
      (dispatch (call 2) 2 (store_world composer_funs (VFun 6) (VObj 40 [(''count'', VNum 0)]) [])
         (action_of 100 ''INC''))
      (action_of 101 ''INC''))
      (action_of 102 ''NOOP''))
     = Some (Inr (action_of 102 ''NOOP''), VObj 18 [(''count'', VNum 2)], [])"
  by (simp add: then_dispatch_def composer_funs_def combination_def raised_def object_keys_def ex ev)

section \<open>Validation at composition time\<close>




section \<open>Replacing the reducer\<close>

lemma replaceReducer_rejected:
  "is_function r \<Longrightarrow> isDispatching w \<Longrightarrow>
   replaceReducer cl m w r =
     Some (Inl (Error dispatch_reentrancy_message), w\<lparr>currentReducer := r, fresh := Suc (fresh w)\<rparr>)"
  by (simp add: replaceReducer_def alloc_def dispatch_def isPlainObject_def get_prop_def
        lookup_prop_def is_undefined_def)

lemma reducer_calls_replaceReducer:
  assumes "is_function r" and "isDispatching w"
    and "funs w i = Some (UserFn body)" and "funs w rr = Some StoreReplaceReducer"
    and "body args = Do (CCall (VFun rr) [r]) k"
  shows "call (Suc (Suc n)) w (VFun i) args =
           run (call (Suc n)) (w\<lparr>currentReducer := r, fresh := Suc (fresh w)\<rparr>)
             (k (Inl (Error dispatch_reentrancy_message)))"
  using assms replaceReducer_rejected[OF assms(1,2), of "call n" n]
  by (simp add: call_fn_def exec_def arg_def)

text \<open>
  Claim C10.  When \<open>replaceReducer\<close> is called with a function \<open>r\<close> while a dispatch
  is in progress, the inner dispatch of \<open>REPLACE\<close> raises the reentrancy error, and the
  world it leaves has \<open>r\<close> as \<open>currentReducer\<close>.  The enclosing dispatch does not
  restore the old function: when the transition function raises, it leaves with the
  world of the transition function and only the flag cleared, and when it returns,
  only state, flag and current listeners are assigned.  So for a transition function
  that calls \<open>replaceReducer r\<close> and lets the error escape, the dispatch raises that
  error in a world whose \<open>currentReducer\<close> is \<open>r\<close>, and the next dispatch in that world
  calls \<open>r\<close> on the state and takes its outcome.
\<close>

theorem replaceReducer_during_dispatch:
  assumes "is_function r" and "isDispatching w"
  shows "replaceReducer cl m w r =
           Some (Inl (Error dispatch_reentrancy_message),
                 w\<lparr>currentReducer := r, fresh := Suc (fresh w)\<rparr>) \<and>
         (\<forall>w0 a e w1.
            \<not> isDispatching w0 \<and> valid_action a \<and>
            cl (w0\<lparr>isDispatching := True\<rparr>) (currentReducer w0) [currentState w0, a] = Some (Inl e, w1)
            \<longrightarrow> dispatch cl m w0 a = Some (Inl e, w1\<lparr>isDispatching := False\<rparr>)) \<and>
         (\<forall>w0 a s w1.
            \<not> isDispatching w0 \<and> valid_action a \<and>
            cl (w0\<lparr>isDispatching := True\<rparr>) (currentReducer w0) [currentState w0, a] = Some (Inr s, w1)
            \<longrightarrow> dispatch cl m w0 a =
                  after_listeners a
                    (notify cl m (w1\<lparr>currentState := s, isDispatching := False,
                                     currentListeners := Some (nextListeners w1)\<rparr>)
                       (nextListeners w1) 0)) \<and>
         (\<forall>w0 i body rr a k e'.
            \<not> isDispatching w0 \<and> valid_action a \<and> currentReducer w0 = VFun i \<and>
            funs w0 i = Some (UserFn body) \<and> funs w0 rr = Some StoreReplaceReducer \<and>
            body [currentState w0, a] = Do (CCall (VFun rr) [r]) k \<and>
            k (Inl (Error dispatch_reentrancy_message)) = Throw e'
            \<longrightarrow> dispatch (call (Suc (Suc n))) m w0 a =
                  Some (Inl e', w0\<lparr>currentReducer := r, fresh := Suc (fresh w0),
                                   isDispatching := False\<rparr>) \<and>
                (\<forall>a'. valid_action a' \<longrightarrow>
                   dispatch cl m (w0\<lparr>currentReducer := r, fresh := Suc (fresh w0),
                                    isDispatching := False\<rparr>) a' =
                     (case cl (w0\<lparr>currentReducer := r, fresh := Suc (fresh w0),
                                  isDispatching := True\<rparr>) r [currentState w0, a'] of
                        None \<Rightarrow> None
                      | Some (Inl e, w1) \<Rightarrow> Some (Inl e, w1\<lparr>isDispatching := False\<rparr>)
                      | Some (Inr s, w1) \<Rightarrow>
                          after_listeners a'
                            (notify cl m (w1\<lparr>currentState := s, isDispatching := False,
                                             currentListeners := Some (nextListeners w1)\<rparr>)
                               (nextListeners w1) 0))))"
proof (intro conjI allI impI)
  show "replaceReducer cl m w r =
           Some (Inl (Error dispatch_reentrancy_message),
                 w\<lparr>currentReducer := r, fresh := Suc (fresh w)\<rparr>)"
    using assms by (rule replaceReducer_rejected)
next
  fix w0 a e w1
  assume "\<not> isDispatching w0 \<and> valid_action a \<and>
            cl (w0\<lparr>isDispatching := True\<rparr>) (currentReducer w0) [currentState w0, a] = Some (Inl e, w1)"
  then show "dispatch cl m w0 a = Some (Inl e, w1\<lparr>isDispatching := False\<rparr>)"
    using dispatch_reducer_raises [of a w0 cl e w1 m] by blast
next
  fix w0 a s w1
  assume "\<not> isDispatching w0 \<and> valid_action a \<and>
            cl (w0\<lparr>isDispatching := True\<rparr>) (currentReducer w0) [currentState w0, a] = Some (Inr s, w1)"
  then show "dispatch cl m w0 a =
                  after_listeners a
                    (notify cl m (w1\<lparr>currentState := s, isDispatching := False,
                                     currentListeners := Some (nextListeners w1)\<rparr>)
                       (nextListeners w1) 0)"
    using dispatch_reducer_returns [of a w0 cl s w1 m] by blast
next
  fix w0 :: world and i body rr a k e'
  assume h: "\<not> isDispatching w0 \<and> valid_action a \<and> currentReducer w0 = VFun i \<and>
            funs w0 i = Some (UserFn body) \<and> funs w0 rr = Some StoreReplaceReducer \<and>
            body [currentState w0, a] = Do (CCall (VFun rr) [r]) k \<and>
            k (Inl (Error dispatch_reentrancy_message)) = Throw e'"
  let ?wd = "w0\<lparr>isDispatching := True\<rparr>"
  have "call (Suc (Suc n)) ?wd (VFun i) [currentState w0, a] =
          run (call (Suc n)) (?wd\<lparr>currentReducer := r, fresh := Suc (fresh ?wd)\<rparr>)
            (k (Inl (Error dispatch_reentrancy_message)))"
    using h reducer_calls_replaceReducer
              [of r ?wd i body rr "[currentState w0, a]" k n, OF assms(1)]
    by simp
  with h have rc: "call (Suc (Suc n)) ?wd (currentReducer w0) [currentState w0, a] =
          Some (Inl e', ?wd\<lparr>currentReducer := r, fresh := Suc (fresh w0)\<rparr>)"
    by simp
  from dispatch_reducer_raises [of a w0 "call (Suc (Suc n))" e' _ m, OF _ _ rc] h
  show "dispatch (call (Suc (Suc n))) m w0 a =
                  Some (Inl e', w0\<lparr>currentReducer := r, fresh := Suc (fresh w0),
                                   isDispatching := False\<rparr>)"
    by simp
next
  fix w0 :: world and i body rr a k e' a'
  assume "valid_action a'"
  then show "dispatch cl m (w0\<lparr>currentReducer := r, fresh := Suc (fresh w0),
                                    isDispatching := False\<rparr>) a' =
                     (case cl (w0\<lparr>currentReducer := r, fresh := Suc (fresh w0),
                                  isDispatching := True\<rparr>) r [currentState w0, a'] of
                        None \<Rightarrow> None
                      | Some (Inl e, w1) \<Rightarrow> Some (Inl e, w1\<lparr>isDispatching := False\<rparr>)
                      | Some (Inr s, w1) \<Rightarrow>
                          after_listeners a'
                            (notify cl m (w1\<lparr>currentState := s, isDispatching := False,
                                             currentListeners := Some (nextListeners w1)\<rparr>)
                               (nextListeners w1) 0))"
    by (simp add: dispatch_def valid_actionD after_listeners_def Let_def
          split: option.splits sum.splits)
qed

theorem replaceReducer_during_dispatch_witness:
  "replaceReducer (call 1) 1
     ((store_world swapping_funs (VFun 6) (VNum 0) [])\<lparr>isDispatching := True\<rparr>) (VFun 5) =
     Some (Inl (Error dispatch_reentrancy_message),
           (store_world swapping_funs (VFun 6) (VNum 0) [])
             \<lparr>isDispatching := True, currentReducer := VFun 5, fresh := 18\<rparr>) \<and>
   dispatch (call 2) 1 (store_world swapping_funs (VFun 6) (VNum 0) []) (action_of 100 ''SWAP'') =
     Some (Inl (Error dispatch_reentrancy_message),
           (store_world swapping_funs (VFun 6) (VNum 0) [])\<lparr>currentReducer := VFun 5, fresh := 18\<rparr>) \<and>
   observe (then_dispatch 1
      (dispatch (call 2) 1 (store_world swapping_funs (VFun 6) (VNum 0) []) (action_of 100 ''SWAP''))
      (action_of 101 ''INC''))
     = Some (Inr (action_of 101 ''INC''), VNum 10, [])"
proof -
  let ?w = "store_world swapping_funs (VFun 6) (VNum 0) []"
  let ?b = "?w\<lparr>isDispatching := True\<rparr>"
  let ?a = "action_of 100 ''SWAP''"
  let ?k = "\<lambda>r. case r of Inl e \<Rightarrow> Throw e | Inr _ \<Rightarrow> counter [VNum 0, ?a]"
  have h1: "is_function (VFun 5)" by (simp add: is_function_def)
  have h2: "isDispatching ?b" by simp
  note t = replaceReducer_during_dispatch [OF h1 h2, of "call 1" 1 0]
  have c1: "replaceReducer (call 1) 1 ?b (VFun 5) =
              Some (Inl (Error dispatch_reentrancy_message),
                    ?w\<lparr>isDispatching := True, currentReducer := VFun 5, fresh := 18\<rparr>)"
    using t by (simp add: store_world_def)
  have ty: "type_of ?a = VStr ''SWAP''"
    by (simp add: type_of_def action_of_def get_prop_def lookup_prop_def)
  have h3: "\<not> isDispatching ?w \<and> valid_action ?a \<and> currentReducer ?w = VFun 6 \<and>
            funs ?w 6 = Some (UserFn swap_escaping) \<and> funs ?w 14 = Some StoreReplaceReducer \<and>
            swap_escaping [currentState ?w, ?a] = Do (CCall (VFun 14) [VFun 5]) ?k \<and>
            ?k (Inl (Error dispatch_reentrancy_message)) = Throw (Error dispatch_reentrancy_message)"
    using ty by (simp add: store_world_def swapping_funs_def swap_escaping_def arg_def)
  from t have "\<forall>w0 i body rr a k e'.
            \<not> isDispatching w0 \<and> valid_action a \<and> currentReducer w0 = VFun i \<and>
            funs w0 i = Some (UserFn body) \<and> funs w0 rr = Some StoreReplaceReducer \<and>
            body [currentState w0, a] = Do (CCall (VFun rr) [VFun 5]) k \<and>
            k (Inl (Error dispatch_reentrancy_message)) = Throw e'
            \<longrightarrow> dispatch (call (Suc (Suc 0))) 1 w0 a =
                  Some (Inl e', w0\<lparr>currentReducer := VFun 5, fresh := Suc (fresh w0),
                                   isDispatching := False\<rparr>)"
    by blast
  from this[rule_format, OF h3]
  have c2: "dispatch (call 2) 1 ?w ?a =
              Some (Inl (Error dispatch_reentrancy_message), ?w\<lparr>currentReducer := VFun 5, fresh := 18\<rparr>)"
    by (simp add: numeral_2_eq_2 store_world_def)
  have c3: "observe (then_dispatch 1 (dispatch (call 2) 1 ?w ?a) (action_of 101 ''INC'')) =
              Some (Inr (action_of 101 ''INC''), VNum 10, [])"
    unfolding c2 by (simp add: then_dispatch_def swapping_funs_def ex ev)
  from c1 c2 c3 show ?thesis by (intro conjI)
qed

text \<open>
  The whole course on an example: the reducer \<open>swapper\<close> calls \<open>replaceReducer\<close>
  from inside a dispatch and swallows the exception; the dispatch returns, the new
  reducer \<open>plus_ten\<close> is in place, and the next dispatch adds ten.
\<close>

lemma swap_inside_reducer_example:
  "map_option (\<lambda>(r, w). (r, currentState w, currentReducer w))
     (dispatch (call 3) 3 (store_world example_funs (VFun 4) (VNum 0) []) (action_of 100 ''SWAP''))
   = Some (Inr (action_of 100 ''SWAP''), VNum 0, VFun 5) \<and>
   observe (then_dispatch 3
     (dispatch (call 3) 3 (store_world example_funs (VFun 4) (VNum 0) []) (action_of 100 ''SWAP''))
     (action_of 101 ''INC''))
   = Some (Inr (action_of 101 ''INC''), VNum 10, [])"
  by (simp add: ex ev replaceReducer_def ActionTypes_REPLACE_def then_dispatch_def)

lemma valid_replace_action: "valid_action (replace_action w)"
  by (simp add: valid_action_def replace_action_def isPlainObject_def get_prop_def lookup_prop_def
        is_undefined_def)

lemma replaceReducer_dispatches:
  assumes "is_function r"
  shows "replaceReducer (call n) m w r =
           (case dispatch (call n) m (w\<lparr>currentReducer := r, fresh := Suc (fresh w)\<rparr>)
                   (replace_action w) of
              None \<Rightarrow> None
            | Some (Inl e, w') \<Rightarrow> Some (Inl e, w')
            | Some (Inr _, w') \<Rightarrow> Some (Inr (store w), w'))"
proof -
  let ?w2 = "w\<lparr>currentReducer := r, fresh := Suc (fresh w)\<rparr>"
  have st: "\<And>x w'. dispatch (call n) m ?w2 (replace_action w) = Some (x, w') \<Longrightarrow> store w' = store w"
    using dispatch_evolves[OF call_well_behaved] by (fastforce simp: evolves_def)
  show ?thesis using st assms
    by (auto simp: replaceReducer_def alloc_def replace_action_def split: option.splits sum.splits)
qed

lemma replaceReducer_returns:
  assumes "is_function r" and "\<not> isDispatching w"
    and "call n (w\<lparr>currentReducer := r, fresh := Suc (fresh w), isDispatching := True\<rparr>) r
           [currentState w, replace_action w] = Some (Inr s, w1)"
  shows "replaceReducer (call n) m w r =
           after_listeners (store w)
             (notify (call n) m
                (w1\<lparr>currentState := s, isDispatching := False,
                     currentListeners := Some (nextListeners w1)\<rparr>) (nextListeners w1) 0)"
proof -
  let ?w2 = "w\<lparr>currentReducer := r, fresh := Suc (fresh w)\<rparr>"
  have "dispatch (call n) m ?w2 (replace_action w) =
          after_listeners (replace_action w)
            (notify (call n) m
               (w1\<lparr>currentState := s, isDispatching := False,
                    currentListeners := Some (nextListeners w1)\<rparr>) (nextListeners w1) 0)"
    using dispatch_reducer_returns [of "replace_action w" ?w2 "call n" s w1 m]
      valid_replace_action [of w] assms(2,3) by simp
  then show ?thesis
    unfolding replaceReducer_dispatches[OF assms(1)]
    by (simp add: after_listeners_def split: option.splits sum.splits)
qed

lemma replaceReducer_raises:
  assumes "is_function r" and "\<not> isDispatching w"
    and "call n (w\<lparr>currentReducer := r, fresh := Suc (fresh w), isDispatching := True\<rparr>) r
           [currentState w, replace_action w] = Some (Inl e, w1)"
  shows "replaceReducer (call n) m w r = Some (Inl e, w1\<lparr>isDispatching := False\<rparr>)"
proof -
  let ?w2 = "w\<lparr>currentReducer := r, fresh := Suc (fresh w)\<rparr>"
  have "dispatch (call n) m ?w2 (replace_action w) = Some (Inl e, w1\<lparr>isDispatching := False\<rparr>)"
    using dispatch_reducer_raises [of "replace_action w" ?w2 "call n" e w1 m]
      valid_replace_action [of w] assms(2,3) by simp
  then show ?thesis
    unfolding replaceReducer_dispatches[OF assms(1)] by simp
qed

text \<open>
  Claim C5.  \<open>replaceReducer\<close> with any function \<open>r\<close> assigns \<open>currentReducer\<close>,
  performs one dispatch of the \<open>REPLACE\<close> action and returns the store object.  On an
  idle store that dispatch calls \<open>r\<close> on the current state: when \<open>r\<close> returns \<open>s\<close>,
  the listener loop runs from state \<open>s\<close> and the store object is returned after it;
  when \<open>r\<close> raises, so does \<open>replaceReducer\<close>.  When \<open>r\<close> is a composite reducer and
  the state is \<open>VObj i fs\<close>, the reducer of each key is called on the value the old
  state holds under that key (\<open>vs\<close> are the results), and the new state is made of the
  results.
\<close>

theorem replaceReducer_migrates_state:
  "(is_function r \<longrightarrow>
      replaceReducer (call n) m w r =
        (case dispatch (call n) m (w\<lparr>currentReducer := r, fresh := Suc (fresh w)\<rparr>)
                (replace_action w) of
           None \<Rightarrow> None
         | Some (Inl e, w') \<Rightarrow> Some (Inl e, w')
         | Some (Inr _, w') \<Rightarrow> Some (Inr (store w), w'))) \<and>
   (is_function r \<and> \<not> isDispatching w \<and>
    call n (w\<lparr>currentReducer := r, fresh := Suc (fresh w), isDispatching := True\<rparr>) r
      [currentState w, replace_action w] = Some (Inr s, w1) \<longrightarrow>
      replaceReducer (call n) m w r =
        after_listeners (store w)
          (notify (call n) m
             (w1\<lparr>currentState := s, isDispatching := False,
                  currentListeners := Some (nextListeners w1)\<rparr>) (nextListeners w1) 0)) \<and>
   (is_function r \<and> \<not> isDispatching w \<and>
    call n (w\<lparr>currentReducer := r, fresh := Suc (fresh w), isDispatching := True\<rparr>) r
      [currentState w, replace_action w] = Some (Inl e, w1) \<longrightarrow>
      replaceReducer (call n) m w r = Some (Inl e, w1\<lparr>isDispatching := False\<rparr>)) \<and>
   (\<not> isDispatching w \<and> funs w f = Some (Combination frs None) \<and> distinct (map fst frs) \<and>
    currentState w = VObj i fs \<and>
    slice_calls (call k)
      (w\<lparr>currentReducer := VFun f, fresh := Suc (Suc (fresh w)), isDispatching := True\<rparr>)
      fs (replace_action w) frs = Some (vs, w2) \<longrightarrow>
      replaceReducer (call (Suc k)) m w (VFun f) =
        after_listeners (store w)
          (notify (call (Suc k)) m
             (w2\<lparr>currentState :=
                    (if slices_unchanged fs frs vs \<and> length frs = length fs then VObj i fs
                     else VObj (Suc (fresh w)) (slice_results frs vs)),
                  isDispatching := False,
                  currentListeners := Some (nextListeners w2)\<rparr>) (nextListeners w2) 0))"
proof (intro conjI impI)
  assume "is_function r"
  then show "replaceReducer (call n) m w r =
        (case dispatch (call n) m (w\<lparr>currentReducer := r, fresh := Suc (fresh w)\<rparr>)
                (replace_action w) of
           None \<Rightarrow> None
         | Some (Inl e, w') \<Rightarrow> Some (Inl e, w')
         | Some (Inr _, w') \<Rightarrow> Some (Inr (store w), w'))"
    by (rule replaceReducer_dispatches)
next
  assume "is_function r \<and> \<not> isDispatching w \<and>
    call n (w\<lparr>currentReducer := r, fresh := Suc (fresh w), isDispatching := True\<rparr>) r
      [currentState w, replace_action w] = Some (Inr s, w1)"
  then show "replaceReducer (call n) m w r =
        after_listeners (store w)
          (notify (call n) m
             (w1\<lparr>currentState := s, isDispatching := False,
                  currentListeners := Some (nextListeners w1)\<rparr>) (nextListeners w1) 0)"
    by (blast intro: replaceReducer_returns)
next
  assume "is_function r \<and> \<not> isDispatching w \<and>
    call n (w\<lparr>currentReducer := r, fresh := Suc (fresh w), isDispatching := True\<rparr>) r
      [currentState w, replace_action w] = Some (Inl e, w1)"
  then show "replaceReducer (call n) m w r = Some (Inl e, w1\<lparr>isDispatching := False\<rparr>)"
    by (blast intro: replaceReducer_raises)
next
  let ?wd = "w\<lparr>currentReducer := VFun f, fresh := Suc (fresh w), isDispatching := True\<rparr>"
  let ?new = "if slices_unchanged fs frs vs \<and> length frs = length fs then VObj i fs
              else VObj (Suc (fresh w)) (slice_results frs vs)"
  assume h: "\<not> isDispatching w \<and> funs w f = Some (Combination frs None) \<and> distinct (map fst frs) \<and>
    currentState w = VObj i fs \<and>
    slice_calls (call k)
      (w\<lparr>currentReducer := VFun f, fresh := Suc (Suc (fresh w)), isDispatching := True\<rparr>)
      fs (replace_action w) frs = Some (vs, w2)"
  have eq: "allocated ?wd =
              w\<lparr>currentReducer := VFun f, fresh := Suc (Suc (fresh w)), isDispatching := True\<rparr>"
    by (simp add: allocated_def)
  from h have sc: "slice_calls (call k) (allocated ?wd) fs (replace_action w) frs = Some (vs, w2)"
    unfolding eq by blast
  from h have d: "distinct (map fst frs)" by simp
  have "combination (call k) frs None ?wd (VObj i fs) (replace_action w) = Some (Inr ?new, w2)"
    using combination_slices[OF sc d, of i] by simp
  with h have rc: "call (Suc k) ?wd (VFun f) [currentState w, replace_action w] = Some (Inr ?new, w2)"
    by (simp add: call_fn_def arg_def)
  have fn: "is_function (VFun f)" by (simp add: is_function_def)
  from replaceReducer_returns[OF fn _ rc, of m] h
  show "replaceReducer (call (Suc k)) m w (VFun f) =
        after_listeners (store w)
          (notify (call (Suc k)) m
             (w2\<lparr>currentState := ?new, isDispatching := False,
                  currentListeners := Some (nextListeners w2)\<rparr>) (nextListeners w2) 0)"
    by simp
qed

theorem replaceReducer_migrates_state_witness:
  "observe (replaceReducer (call 2) 1
              (store_world boxing_funs (VFun 6) (VObj 40 [(''count'', VNum 2)]) []) (VFun 21))
     = Some (Inr store_object,
             VObj 18 [(''count'', VNum 12), (''box'', VObj 19 [(''value'', VUndefined)])], []) \<and>
   observe (replaceReducer (call 1) 1 (store_world boxing_funs (VFun 0) (VNum 2) []) (VFun 5))
     = Some (Inr store_object, VNum 12, []) \<and>
   replaceReducer (call 1) 1 (store_world boxing_funs (VFun 0) (VNum 2) []) (VFun 10)
     = Some (Inl (Thrown (VStr ''boom'')),
             (store_world boxing_funs (VFun 0) (VNum 2) [])\<lparr>currentReducer := VFun 10, fresh := 18\<rparr>)"
proof -
  let ?w = "store_world boxing_funs (VFun 6) (VObj 40 [(''count'', VNum 2)]) []"
  let ?v = "store_world boxing_funs (VFun 0) (VNum 2) []"
  have h1: "\<not> isDispatching ?w \<and>
            funs ?w 21 = Some (Combination [(''count'', VFun 5), (''box'', VFun 9)] None) \<and>
            distinct (map fst [(''count'', VFun 5), (''box'', VFun 9)]) \<and>
            currentState ?w = VObj 40 [(''count'', VNum 2)] \<and>
            slice_calls (call 1)
              (?w\<lparr>currentReducer := VFun 21, fresh := Suc (Suc (fresh ?w)), isDispatching := True\<rparr>)
              [(''count'', VNum 2)] (replace_action ?w) [(''count'', VFun 5), (''box'', VFun 9)] =
              Some ([VNum 12, VObj 19 [(''value'', VUndefined)]],
                    ?w\<lparr>currentReducer := VFun 21, fresh := 20, isDispatching := True\<rparr>)"
    by (simp add: store_world_def boxing_funs_def composer_funs_def lookup_prop_def boxing_def
          replace_action_def ex ev)
  have h2: "is_function (VFun 5) \<and> \<not> isDispatching ?v \<and>
            call 1 (?v\<lparr>currentReducer := VFun 5, fresh := Suc (fresh ?v), isDispatching := True\<rparr>)
              (VFun 5) [currentState ?v, replace_action ?v] =
              Some (Inr (VNum 12),
                    ?v\<lparr>currentReducer := VFun 5, fresh := 18, isDispatching := True\<rparr>)"
    by (simp add: is_function_def store_world_def boxing_funs_def composer_funs_def ex ev)
  have h3: "is_function (VFun 10) \<and> \<not> isDispatching ?v \<and>
            call 1 (?v\<lparr>currentReducer := VFun 10, fresh := Suc (fresh ?v), isDispatching := True\<rparr>)
              (VFun 10) [currentState ?v, replace_action ?v] =
              Some (Inl (Thrown (VStr ''boom'')),
                    ?v\<lparr>currentReducer := VFun 10, fresh := 18, isDispatching := True\<rparr>)"
    by (simp add: is_function_def store_world_def boxing_funs_def composer_funs_def throwing_def ex ev)
  note t1 = replaceReducer_migrates_state
    [where w = ?w and f = 21 and k = 1 and m = 1 and i = 40 and fs = "[(''count'', VNum 2)]"
       and frs = "[(''count'', VFun 5), (''box'', VFun 9)]"
       and vs = "[VNum 12, VObj 19 [(''value'', VUndefined)]]"
       and ?w2.0 = "?w\<lparr>currentReducer := VFun 21, fresh := 20, isDispatching := True\<rparr>",
     THEN conjunct2, THEN conjunct2, THEN conjunct2, rule_format, OF h1]
  note t2 = replaceReducer_migrates_state
    [where w = ?v and r = "VFun 5" and n = 1 and m = 1 and s = "VNum 12"
       and ?w1.0 = "?v\<lparr>currentReducer := VFun 5, fresh := 18, isDispatching := True\<rparr>",
     THEN conjunct2, THEN conjunct1, rule_format, OF h2]
  note t3 = replaceReducer_migrates_state
    [where w = ?v and r = "VFun 10" and n = 1 and m = 1 and e = "Thrown (VStr ''boom'')"
       and ?w1.0 = "?v\<lparr>currentReducer := VFun 10, fresh := 18, isDispatching := True\<rparr>",
     THEN conjunct2, THEN conjunct2, THEN conjunct1, rule_format, OF h3]
  have c1: "observe (replaceReducer (call 2) 1 ?w (VFun 21)) =
              Some (Inr store_object,
                    VObj 18 [(''count'', VNum 12), (''box'', VObj 19 [(''value'', VUndefined)])], [])"
    using t1
    by (simp add: Suc_1[symmetric] del: Suc_1)
       (simp add: observe_def after_listeners_def store_world_def slices_unchanged_def
          slice_results_def lookup_prop_def)
  have c2: "observe (replaceReducer (call 1) 1 ?v (VFun 5)) = Some (Inr store_object, VNum 12, [])"
    unfolding t2 by (simp add: observe_def after_listeners_def store_world_def)
  have c3: "replaceReducer (call 1) 1 ?v (VFun 10) =
              Some (Inl (Thrown (VStr ''boom'')), ?v\<lparr>currentReducer := VFun 10, fresh := 18\<rparr>)"
    unfolding t3 by (simp add: store_world_def)
  from c1 c2 c3 show ?thesis by (intro conjI)
qed

end
